theory Spec2Isabelle
  imports Main "HOL-Library.Word" "HOL-Library.AList"
begin

section \<open>Machine integers of the Go source\<close>

text \<open>
  The source is Go on a 64-bit target: \<^verbatim>\<open>uint64\<close> and \<^verbatim>\<open>uint32\<close> are words whose
  arithmetic wraps, \<^verbatim>\<open>int\<close> is a signed 64-bit integer. A conversion
  \<^verbatim>\<open>int(x)\<close> of a \<^verbatim>\<open>uint64\<close> reinterprets the bits (\<open>sint\<close>), and \<^verbatim>\<open>%\<close> on
  signed integers truncates towards zero. An integer division by zero is a run-time
  panic, which the model returns as the error \<open>DivideByZero\<close>.
\<close>

type_synonym u64 = "64 word"
type_synonym u32 = "32 word"

datatype error =
    DivideByZero
  | MakeSliceLenOutOfRange
  | InvalidParameters
  | NilGenerator
  | TimeNotPositive
  | TimeBehind u64 u64

definition go_rem :: "int \<Rightarrow> int \<Rightarrow> int" where
  "go_rem a b = sgn a * (\<bar>a\<bar> mod \<bar>b\<bar>)"

section \<open>The sliding window (BucketWrap, AtomicBucketWrapArray, LeapArray)\<close>

record 'v BucketWrap =
  BucketStart :: u64
  Value :: 'v

definition resetTo :: "'v BucketWrap \<Rightarrow> u64 \<Rightarrow> 'v BucketWrap" where
  "resetTo ww startTime = ww\<lparr>BucketStart := startTime\<rparr>"

definition isTimeInBucket :: "'v BucketWrap \<Rightarrow> u64 \<Rightarrow> u32 \<Rightarrow> bool" where
  "isTimeInBucket ww now bucketLengthInMs =
     (BucketStart ww \<le> now \<and> now < BucketStart ww + ucast bucketLengthInMs)"

definition calculateStartTime :: "u64 \<Rightarrow> u32 \<Rightarrow> error + u64" where
  "calculateStartTime now bucketLengthInMs =
     (if bucketLengthInMs = 0 then Inl DivideByZero
      else Inr (now - (now mod ucast bucketLengthInMs)))"

text \<open>
  The interface \<^verbatim>\<open>BucketGenerator\<close> has no implementation in the files verified here, so a
  generator is a parameter: the payload of a fresh bucket and the function that
  refreshes a wrap. The interface documents \<^verbatim>\<open>ResetBucketTo\<close> as refreshing the wrap
  to the provided start time; \<open>resets_start\<close> says that a generator does so.
\<close>

record 'v BucketGenerator =
  NewEmptyBucket :: 'v
  ResetBucketTo :: "'v BucketWrap \<Rightarrow> u64 \<Rightarrow> 'v BucketWrap"

definition resets_start :: "'v BucketGenerator \<Rightarrow> bool" where
  "resets_start bg = (\<forall>ww startTime. BucketStart (ResetBucketTo bg ww startTime) = startTime)"

text \<open>
  \<^verbatim>\<open>AtomicBucketWrapArray\<close>: the slice \<^verbatim>\<open>data\<close> of nil-able pointers is a list of
  optional wraps; \<^verbatim>\<open>base\<close> is the address of that same slice and has no field of its
  own. A wrap handed out by the ring is the value held in the slot.
\<close>

record 'v AtomicBucketWrapArray =
  length_arr :: int
  data :: "'v BucketWrap option list"

definition fill ::
  "'v \<Rightarrow> u32 \<Rightarrow> nat list \<Rightarrow> 'v BucketWrap option list \<times> u64 \<Rightarrow> 'v BucketWrap option list \<times> u64"
where
  "fill v bucketLengthInMs idxs acc =
     fold (\<lambda>i (d, startTime).
             (d[i := Some \<lparr>BucketStart = startTime, Value = v\<rparr>],
              startTime + ucast bucketLengthInMs)) idxs acc"

definition NewAtomicBucketWrapArrayWithTime ::
  "int \<Rightarrow> u32 \<Rightarrow> u64 \<Rightarrow> 'v BucketGenerator \<Rightarrow> error + 'v AtomicBucketWrapArray"
where
  "NewAtomicBucketWrapArrayWithTime len bucketLengthInMs now generator =
     (if len < 0 then Inl MakeSliceLenOutOfRange
      else if bucketLengthInMs = 0 \<or> len = 0 then Inl DivideByZero
      else
        let idx = nat (uint ((now div ucast bucketLengthInMs) mod (word_of_int len :: u64)));
            startTime = now - (now mod ucast bucketLengthInMs);
            acc1 = fill (NewEmptyBucket generator) bucketLengthInMs [idx ..< nat len]
                     (replicate (nat len) None, startTime);
            acc2 = fill (NewEmptyBucket generator) bucketLengthInMs [0 ..< idx] acc1
        in Inr \<lparr>length_arr = len, data = fst acc2\<rparr>)"

definition get :: "'v AtomicBucketWrapArray \<Rightarrow> int \<Rightarrow> 'v BucketWrap option" where
  "get aa idx =
     (if idx \<ge> length_arr aa \<or> idx < 0 then None
      else if nat idx < length (data aa) then data aa ! nat idx else None)"

text \<open>
  \<^verbatim>\<open>compareAndSet\<close> compares pointers; the ring only calls it with \<^verbatim>\<open>nil\<close> expected,
  where comparing the slot's content is the same.
\<close>

definition compareAndSet ::
  "'v AtomicBucketWrapArray \<Rightarrow> int \<Rightarrow> 'v BucketWrap option \<Rightarrow> 'v BucketWrap option
     \<Rightarrow> bool \<times> 'v AtomicBucketWrapArray"
where
  "compareAndSet aa idx except update =
     (if idx \<ge> length_arr aa \<or> idx < 0 \<or> \<not> nat idx < length (data aa) then (False, aa)
      else if data aa ! nat idx = except
        then (True, aa\<lparr>data := (data aa)[nat idx := update]\<rparr>)
        else (False, aa))"

text \<open>
  \<^verbatim>\<open>LeapArray\<close>. The mutex \<^verbatim>\<open>updateLock\<close> is the flag "held by another goroutine":
  \<^verbatim>\<open>TryLock\<close> succeeds exactly when it is \<open>False\<close>, and the lock is released again
  before \<^verbatim>\<open>currentBucketOfTime\<close> returns.
\<close>

record 'v LeapArray =
  bucketLengthInMs :: u32
  sampleCount :: u32
  intervalInMs :: u32
  array :: "'v AtomicBucketWrapArray"
  updateLock :: bool

text \<open>
  \<^verbatim>\<open>NewLeapArray\<close> reads the clock (\<^verbatim>\<open>util.CurrentTimeMillis()\<close>) when it builds the
  array; the reading is the parameter \<open>now\<close>. A nil generator is \<open>None\<close>.
\<close>

definition NewLeapArray ::
  "u32 \<Rightarrow> u32 \<Rightarrow> 'v BucketGenerator option \<Rightarrow> u64 \<Rightarrow> error + 'v LeapArray"
where
  "NewLeapArray sampleCount' intervalInMs' generator now =
     (if sampleCount' = 0 \<or> intervalInMs' mod sampleCount' \<noteq> 0 then Inl InvalidParameters
      else case generator of
        None \<Rightarrow> Inl NilGenerator
      | Some g \<Rightarrow>
          let bl = intervalInMs' div sampleCount' in
          (case NewAtomicBucketWrapArrayWithTime (uint sampleCount') bl now g of
             Inl e \<Rightarrow> Inl e
           | Inr arr \<Rightarrow>
               Inr \<lparr>bucketLengthInMs = bl, sampleCount = sampleCount',
                    intervalInMs = intervalInMs', array = arr, updateLock = False\<rparr>))"

definition calculateTimeIdx :: "'v LeapArray \<Rightarrow> u64 \<Rightarrow> error + int" where
  "calculateTimeIdx la now =
     (if bucketLengthInMs la = 0 then Inl DivideByZero
      else
        let timeId = now div ucast (bucketLengthInMs la) in
        if length_arr (array la) = 0 then Inl DivideByZero
        else Inr (go_rem (sint timeId) (length_arr (array la))))"

text \<open>
  The spinning loop of \<^verbatim>\<open>currentBucketOfTime\<close>. A turn either returns or yields
  (\<^verbatim>\<open>runtime.Gosched()\<close>) and tries again; a loop that never returns is \<open>None\<close>.
  On a reset the generator refreshes the wrap in place, so the slot holds the
  refreshed wrap afterwards.
\<close>

partial_function (option) spin ::
  "'v LeapArray \<Rightarrow> 'v BucketGenerator \<Rightarrow> int \<Rightarrow> u64
     \<Rightarrow> (error + 'v BucketWrap \<times> 'v LeapArray) option"
where
  "spin la bg idx bucketStart =
     (case get (array la) idx of
        None \<Rightarrow>
          (let newWrap = \<lparr>BucketStart = bucketStart, Value = NewEmptyBucket bg\<rparr>;
               cas = compareAndSet (array la) idx None (Some newWrap)
           in if fst cas then Some (Inr (newWrap, la\<lparr>array := snd cas\<rparr>))
              else spin la bg idx bucketStart)
      | Some old \<Rightarrow>
          if bucketStart = BucketStart old then Some (Inr (old, la))
          else if bucketStart > BucketStart old then
            (if \<not> updateLock la then
               (let old' = ResetBucketTo bg old bucketStart
                in Some (Inr (old',
                     la\<lparr>array := (array la)\<lparr>data := (data (array la))[nat idx := Some old']\<rparr>\<rparr>)))
             else spin la bg idx bucketStart)
          else
            (if sampleCount la = 1 then Some (Inr (old, la))
             else Some (Inl (TimeBehind bucketStart (BucketStart old)))))"

definition currentBucketOfTime ::
  "'v LeapArray \<Rightarrow> u64 \<Rightarrow> 'v BucketGenerator
     \<Rightarrow> (error + 'v BucketWrap \<times> 'v LeapArray) option"
where
  "currentBucketOfTime la now bg =
     (if now \<le> 0 then Some (Inl TimeNotPositive)
      else case calculateTimeIdx la now of
        Inl e \<Rightarrow> Some (Inl e)
      | Inr idx \<Rightarrow>
          (case calculateStartTime now (bucketLengthInMs la) of
             Inl e \<Rightarrow> Some (Inl e)
           | Inr bucketStart \<Rightarrow> spin la bg idx bucketStart))"

definition isBucketDeprecated :: "'v LeapArray \<Rightarrow> u64 \<Rightarrow> 'v BucketWrap \<Rightarrow> bool" where
  "isBucketDeprecated la now ww = ((now - BucketStart ww) > ucast (intervalInMs la))"

text \<open>
  The loops of \<^verbatim>\<open>valuesWithTime\<close> and \<^verbatim>\<open>ValuesConditional\<close> walk the indices
  \<open>0 ..< length\<close>, skip a nil slot and a slot the condition rejects, and append the
  rest to \<^verbatim>\<open>ret\<close>.
\<close>

primrec collect ::
  "('v BucketWrap \<Rightarrow> bool) \<Rightarrow> 'v AtomicBucketWrapArray \<Rightarrow> nat list \<Rightarrow> 'v BucketWrap list
     \<Rightarrow> 'v BucketWrap list"
where
  "collect skip aa [] ret = ret"
| "collect skip aa (i # idxs) ret =
     (case get aa (int i) of
        None \<Rightarrow> collect skip aa idxs ret
      | Some ww \<Rightarrow>
          if skip ww then collect skip aa idxs ret
          else collect skip aa idxs (ret @ [ww]))"

definition valuesWithTime :: "'v LeapArray \<Rightarrow> u64 \<Rightarrow> 'v BucketWrap list" where
  "valuesWithTime la now =
     (if now \<le> 0 then []
      else collect (\<lambda>ww. isBucketDeprecated la now ww) (array la)
             [0 ..< nat (length_arr (array la))] [])"

definition ValuesConditional ::
  "'v LeapArray \<Rightarrow> u64 \<Rightarrow> (u64 \<Rightarrow> bool) \<Rightarrow> 'v BucketWrap list" where
  "ValuesConditional la now predicate =
     (if now \<le> 0 then []
      else collect (\<lambda>ww. isBucketDeprecated la now ww \<or> \<not> predicate (BucketStart ww))
             (array la) [0 ..< nat (length_arr (array la))] [])"


declare spin.simps [code]

text \<open>
  What a returning turn of the loop has done, branch by branch; \<open>valid_ring\<close> is the
  shape of a ring that \<^verbatim>\<open>NewLeapArray\<close> has built.
\<close>

definition spin_post ::
  "'v LeapArray \<Rightarrow> 'v BucketGenerator \<Rightarrow> int \<Rightarrow> u64
     \<Rightarrow> (error + 'v BucketWrap \<times> 'v LeapArray) \<Rightarrow> bool"
where
  "spin_post la bg idx bucketStart y =
     (case get (array la) idx of
        None \<Rightarrow>
          0 \<le> idx \<and> idx < length_arr (array la) \<and> nat idx < length (data (array la)) \<and>
          y = Inr (\<lparr>BucketStart = bucketStart, Value = NewEmptyBucket bg\<rparr>,
                   la\<lparr>array := (array la)\<lparr>data := (data (array la))
                      [nat idx := Some \<lparr>BucketStart = bucketStart, Value = NewEmptyBucket bg\<rparr>]\<rparr>\<rparr>)
      | Some old \<Rightarrow>
          if bucketStart = BucketStart old then y = Inr (old, la)
          else if BucketStart old < bucketStart then
            \<not> updateLock la \<and>
            y = Inr (ResetBucketTo bg old bucketStart,
                     la\<lparr>array := (array la)\<lparr>data := (data (array la))
                        [nat idx := Some (ResetBucketTo bg old bucketStart)]\<rparr>\<rparr>)
          else if sampleCount la = 1 then y = Inr (old, la)
          else y = Inl (TimeBehind bucketStart (BucketStart old)))"

definition valid_ring :: "'v LeapArray \<Rightarrow> bool" where
  "valid_ring la =
     (sampleCount la \<noteq> 0 \<and> intervalInMs la mod sampleCount la = 0 \<and>
      bucketLengthInMs la = intervalInMs la div sampleCount la \<and>
      length_arr (array la) = uint (sampleCount la) \<and>
      length (data (array la)) = unat (sampleCount la))"

subsection \<open>Example rings\<close>

text \<open>
  A generator over payloads of type \<open>unit\<close> that refreshes a wrap with \<^verbatim>\<open>resetTo\<close>,
  and the ring with given parameters that holds buckets with given start times.
\<close>

definition plain_generator :: "unit BucketGenerator" where
  "plain_generator = \<lparr>NewEmptyBucket = (), ResetBucketTo = resetTo\<rparr>"

definition bucket_at :: "u64 \<Rightarrow> unit BucketWrap" where
  "bucket_at s = \<lparr>BucketStart = s, Value = ()\<rparr>"

definition ring_of :: "u32 \<Rightarrow> u32 \<Rightarrow> u64 list \<Rightarrow> unit LeapArray" where
  "ring_of n iv starts =
     \<lparr>bucketLengthInMs = iv div n, sampleCount = n, intervalInMs = iv,
      array = \<lparr>length_arr = uint n, data = map (\<lambda>s. Some (bucket_at s)) starts\<rparr>,
      updateLock = False\<rparr>"

section \<open>Token results, entry contexts and the world the slots act on\<close>

text \<open>
  Modelled from the spec: the declarations of \<^verbatim>\<open>TokenResult\<close>, \<^verbatim>\<open>BlockError\<close>,
  \<^verbatim>\<open>EntryContext\<close>, \<^verbatim>\<open>StatNode\<close> and the exporter's counters are declared outside the
  files verified here. A token result is the tagged value \<open>Pass\<close>,
  \<open>Blocked blockError\<close> or \<open>ShouldWait nanosToWait\<close> and is passed by value; an entry
  context is the carrier of the resource, the chosen node, the input, the rule-check
  result, the start time and the optional error; a context is blocked when its
  rule-check result is; a node offers \<open>add(event, count)\<close> on its counters and keeps a
  concurrency counter; an exporter counter holds one value for each tuple of labels
  (a \<^verbatim>\<open>float64\<close> in the source, fed with batch counts only, so a natural number
  here). The counts a node receives are \<^verbatim>\<open>int64\<close> values and are kept as integers.
\<close>

datatype BlockError = BlockError (BlockType: string)

datatype TokenResult = Pass | Blocked BlockError | ShouldWait int

datatype TokenResultStatus = ResultStatusPass | ResultStatusBlocked | ResultStatusShouldWait

fun Status :: "TokenResult \<Rightarrow> TokenResultStatus" where
  "Status Pass = ResultStatusPass"
| "Status (Blocked e) = ResultStatusBlocked"
| "Status (ShouldWait n) = ResultStatusShouldWait"

fun NanosToWait :: "TokenResult \<Rightarrow> int" where
  "NanosToWait (ShouldWait n) = n"
| "NanosToWait r = 0"

definition IsBlocked :: "TokenResult \<Rightarrow> bool" where
  "IsBlocked r = (Status r = ResultStatusBlocked)"

definition ResetToPass :: "TokenResult \<Rightarrow> TokenResult" where
  "ResetToPass r = Pass"

definition NewTokenResultPass :: TokenResult where
  "NewTokenResultPass = Pass"

datatype TrafficType = Outbound | Inbound

record ResourceWrapper =
  Name :: string
  FlowType :: TrafficType

record SentinelInput =
  BatchCount :: u32

datatype SentinelEntry = SentinelEntry

text \<open>A node is referred to by its address in the store \<open>nodes\<close> of the world.\<close>

record EntryContext =
  entry :: "SentinelEntry option"
  startTime :: u64
  rt :: u64
  Resource :: ResourceWrapper
  StatNode :: "nat option"
  Input :: SentinelInput
  RuleCheckResult :: TokenResult
  err :: "string option"

definition SetError :: "EntryContext \<Rightarrow> string \<Rightarrow> EntryContext" where
  "SetError ctx e = ctx\<lparr>err := Some e\<rparr>"

definition PutRt :: "EntryContext \<Rightarrow> u64 \<Rightarrow> EntryContext" where
  "PutRt ctx r = ctx\<lparr>rt := r\<rparr>"

definition ctx_IsBlocked :: "EntryContext \<Rightarrow> bool" where
  "ctx_IsBlocked ctx = IsBlocked (RuleCheckResult ctx)"

datatype MetricEvent =
  MetricEventPass | MetricEventBlock | MetricEventComplete | MetricEventError | MetricEventRt

record NodeCounters =
  counters :: "MetricEvent \<Rightarrow> int"
  concurrency :: int

definition AddCount :: "MetricEvent \<Rightarrow> int \<Rightarrow> NodeCounters \<Rightarrow> NodeCounters" where
  "AddCount event count sn = sn\<lparr>counters := (counters sn)(event := counters sn event + count)\<rparr>"

definition IncreaseConcurrency :: "NodeCounters \<Rightarrow> NodeCounters" where
  "IncreaseConcurrency sn = sn\<lparr>concurrency := concurrency sn + 1\<rparr>"

definition DecreaseConcurrency :: "NodeCounters \<Rightarrow> NodeCounters" where
  "DecreaseConcurrency sn = sn\<lparr>concurrency := concurrency sn - 1\<rparr>"

type_synonym counter = "string list \<Rightarrow> nat"

definition counter_Add :: "nat \<Rightarrow> string list \<Rightarrow> counter \<Rightarrow> counter" where
  "counter_Add v labels c = c(labels := c labels + v)"

text \<open>
  The world outside a context: the store of nodes, the registry that
  \<^verbatim>\<open>stat.GetResourceNode\<close> reads (no node for a name is nil), the address of the inbound node
  (\<^verbatim>\<open>stat.InboundNode()\<close>), the two exporter counters, and the durations that
  \<^verbatim>\<open>util.Sleep\<close> was called with, in order.
\<close>

record World =
  nodes :: "nat \<Rightarrow> NodeCounters"
  resNodeMap :: "string \<Rightarrow> nat option"
  inboundNode :: nat
  handledCounter :: counter
  flowWaitCount :: counter
  slept :: "int list"

definition GetResourceNode :: "World \<Rightarrow> string \<Rightarrow> nat option" where
  "GetResourceNode w resource = resNodeMap w resource"

definition Sleep :: "int \<Rightarrow> World \<Rightarrow> World" where
  "Sleep nanos w = w\<lparr>slept := slept w @ [nanos]\<rparr>"


section \<open>The slot chain\<close>

text \<open>
  The three slot interfaces are records of their methods. A method is code that the
  chain does not know: it takes the context and a world of type \<open>'w\<close>, leaves both
  as it likes, and either returns or panics; a panic is its value, as the string
  that \<^verbatim>\<open>%+v\<close> prints. \<^verbatim>\<open>Check\<close> returns a nil-able token result.
\<close>

record 'w StatPrepareSlot =
  Prepare :: "EntryContext \<Rightarrow> 'w \<Rightarrow> string option \<times> EntryContext \<times> 'w"

record 'w RuleCheckSlot =
  Check :: "EntryContext \<Rightarrow> 'w \<Rightarrow> (string + TokenResult option) \<times> EntryContext \<times> 'w"

record 'w StatSlot =
  OnEntryPassed :: "EntryContext \<Rightarrow> 'w \<Rightarrow> string option \<times> EntryContext \<times> 'w"
  OnEntryBlocked :: "EntryContext \<Rightarrow> BlockError \<Rightarrow> 'w \<Rightarrow> string option \<times> EntryContext \<times> 'w"
  OnCompleted :: "EntryContext \<Rightarrow> 'w \<Rightarrow> string option \<times> EntryContext \<times> 'w"

record 'w SlotChain =
  statPres :: "'w StatPrepareSlot list"
  ruleChecks :: "'w RuleCheckSlot list"
  stats :: "'w StatSlot list"

text \<open>
  What the chain does to its surroundings, in order: the call of the method of the
  slot at a position of its list, a panic that leaves a method, and a call of
  \<^verbatim>\<open>logging.Error\<close>.
\<close>

datatype event =
    EvPrepare nat
  | EvCheck nat
  | EvOnEntryPassed nat
  | EvOnEntryBlocked nat
  | EvOnCompleted nat
  | EvPanic string
  | EvLogError string

fun run_statPres ::
  "'w StatPrepareSlot list \<Rightarrow> nat \<Rightarrow> EntryContext \<Rightarrow> 'w
     \<Rightarrow> string option \<times> EntryContext \<times> 'w \<times> event list"
where
  "run_statPres [] i ctx w = (None, ctx, w, [])"
| "run_statPres (s # sps) i ctx w =
     (case Prepare s ctx w of
        (Some p, ctx', w') \<Rightarrow> (Some p, ctx', w', [EvPrepare i, EvPanic p])
      | (None, ctx', w') \<Rightarrow>
          (case run_statPres sps (Suc i) ctx' w' of
             (r, ctx'', w'', tr) \<Rightarrow> (r, ctx'', w'', EvPrepare i # tr)))"

text \<open>
  The loop over the rule-check slots yields \<^verbatim>\<open>ruleCheckRet\<close>: \<open>None\<close> for nil, the
  blocked result at which it broke off otherwise.
\<close>

fun run_ruleChecks ::
  "'w RuleCheckSlot list \<Rightarrow> nat \<Rightarrow> EntryContext \<Rightarrow> 'w
     \<Rightarrow> (string + TokenResult option) \<times> EntryContext \<times> 'w \<times> event list"
where
  "run_ruleChecks [] i ctx w = (Inr None, ctx, w, [])"
| "run_ruleChecks (s # rcs) i ctx w =
     (case Check s ctx w of
        (Inl p, ctx', w') \<Rightarrow> (Inl p, ctx', w', [EvCheck i, EvPanic p])
      | (Inr sr, ctx', w') \<Rightarrow>
          (if (case sr of None \<Rightarrow> False | Some r \<Rightarrow> IsBlocked r)
           then (Inr sr, ctx', w', [EvCheck i])
           else (case run_ruleChecks rcs (Suc i) ctx' w' of
                   (r, ctx'', w'', tr) \<Rightarrow> (r, ctx'', w'', EvCheck i # tr))))"

text \<open>
  The field \<^verbatim>\<open>blockErr\<close> of a result; the loop over the statistic slots reads it of a
  blocked result only.
\<close>

fun blockErr :: "TokenResult \<Rightarrow> BlockError" where
  "blockErr (Blocked e) = e"
| "blockErr r = BlockError []"

fun run_stats ::
  "'w StatSlot list \<Rightarrow> TokenResult \<Rightarrow> nat \<Rightarrow> EntryContext \<Rightarrow> 'w
     \<Rightarrow> string option \<times> EntryContext \<times> 'w \<times> event list"
where
  "run_stats [] ruleCheckRet i ctx w = (None, ctx, w, [])"
| "run_stats (s # ss) ruleCheckRet i ctx w =
     (if \<not> IsBlocked ruleCheckRet then
        (case OnEntryPassed s ctx w of
           (Some p, ctx', w') \<Rightarrow> (Some p, ctx', w', [EvOnEntryPassed i, EvPanic p])
         | (None, ctx', w') \<Rightarrow>
             (case run_stats ss ruleCheckRet (Suc i) ctx' w' of
                (r, ctx'', w'', tr) \<Rightarrow> (r, ctx'', w'', EvOnEntryPassed i # tr)))
      else
        (case OnEntryBlocked s ctx (blockErr ruleCheckRet) w of
           (Some p, ctx', w') \<Rightarrow> (Some p, ctx', w', [EvOnEntryBlocked i, EvPanic p])
         | (None, ctx', w') \<Rightarrow>
             (case run_stats ss ruleCheckRet (Suc i) ctx' w' of
                (r, ctx'', w'', tr) \<Rightarrow> (r, ctx'', w'', EvOnEntryBlocked i # tr))))"

text \<open>
  The deferred function of \<^verbatim>\<open>Entry\<close>: it recovers the panic, logs it, sets the error
  of the context, and \<^verbatim>\<open>Entry\<close> returns nil.
\<close>

definition recovered ::
  "string \<Rightarrow> EntryContext \<Rightarrow> 'w \<Rightarrow> event list
     \<Rightarrow> TokenResult option \<times> EntryContext \<times> 'w \<times> event list"
where
  "recovered p ctx w tr = (None, SetError ctx p, w, tr @ [EvLogError p])"

definition Entry ::
  "'w SlotChain \<Rightarrow> EntryContext \<Rightarrow> 'w \<Rightarrow> TokenResult option \<times> EntryContext \<times> 'w \<times> event list"
where
  "Entry sc ctx w =
     (case run_statPres (statPres sc) 0 ctx w of
        (Some p, ctx1, w1, tr1) \<Rightarrow> recovered p ctx1 w1 tr1
      | (None, ctx1, w1, tr1) \<Rightarrow>
          (case run_ruleChecks (ruleChecks sc) 0 ctx1 w1 of
             (Inl p, ctx2, w2, tr2) \<Rightarrow> recovered p ctx2 w2 (tr1 @ tr2)
           | (Inr ruleCheckRet, ctx2, w2, tr2) \<Rightarrow>
               (let ctx3 = (case ruleCheckRet of
                              None \<Rightarrow> ctx2\<lparr>RuleCheckResult := ResetToPass (RuleCheckResult ctx2)\<rparr>
                            | Some sr \<Rightarrow> ctx2\<lparr>RuleCheckResult := sr\<rparr>);
                    ruleCheckRet' = RuleCheckResult ctx3
                in case run_stats (stats sc) ruleCheckRet' 0 ctx3 w2 of
                     (Some p, ctx4, w4, tr3) \<Rightarrow> recovered p ctx4 w4 (tr1 @ tr2 @ tr3)
                   | (None, ctx4, w4, tr3) \<Rightarrow> (Some ruleCheckRet', ctx4, w4, tr1 @ tr2 @ tr3))))"

fun run_completed ::
  "'w StatSlot list \<Rightarrow> nat \<Rightarrow> EntryContext \<Rightarrow> 'w
     \<Rightarrow> string option \<times> EntryContext \<times> 'w \<times> event list"
where
  "run_completed [] i ctx w = (None, ctx, w, [])"
| "run_completed (s # ss) i ctx w =
     (case OnCompleted s ctx w of
        (Some p, ctx', w') \<Rightarrow> (Some p, ctx', w', [EvOnCompleted i, EvPanic p])
      | (None, ctx', w') \<Rightarrow>
          (case run_completed ss (Suc i) ctx' w' of
             (r, ctx'', w'', tr) \<Rightarrow> (r, ctx'', w'', EvOnCompleted i # tr)))"

text \<open>
  \<^verbatim>\<open>exit\<close> has no deferred function: a panic of \<^verbatim>\<open>OnCompleted\<close> leaves it, and is the
  first component of the result. A nil context is \<open>None\<close>.
\<close>

definition exit_chain ::
  "'w SlotChain \<Rightarrow> EntryContext option \<Rightarrow> 'w
     \<Rightarrow> string option \<times> EntryContext option \<times> 'w \<times> event list"
where
  "exit_chain sc ctx w =
     (case ctx of
        None \<Rightarrow> (None, None, w, [EvLogError ''entryContext or SentinelEntry is nil''])
      | Some c \<Rightarrow>
          if entry c = None
            then (None, Some c, w, [EvLogError ''entryContext or SentinelEntry is nil''])
          else if ctx_IsBlocked c then (None, Some c, w, [])
          else (case run_completed (stats sc) 0 c w of
                  (r, c', w', tr) \<Rightarrow> (r, Some c', w', tr)))"

text \<open>
  Modelled from the spec: the caller of \<^verbatim>\<open>Entry\<close> (the entry API) is outside the files
  verified here. It returns the block error when the chain returns a blocked result
  and hands out an entry otherwise, so nil counts as a pass.
\<close>

definition treated_as_blocked :: "TokenResult option \<Rightarrow> bool" where
  "treated_as_blocked res = (case res of None \<Rightarrow> False | Some r \<Rightarrow> IsBlocked r)"

definition is_stat_call :: "event \<Rightarrow> bool" where
  "is_stat_call e = (case e of EvOnEntryPassed i \<Rightarrow> True | EvOnEntryBlocked i \<Rightarrow> True | _ \<Rightarrow> False)"

definition is_panic :: "event \<Rightarrow> bool" where
  "is_panic e = (case e of EvPanic p \<Rightarrow> True | _ \<Rightarrow> False)"

definition is_log :: "event \<Rightarrow> bool" where
  "is_log e = (case e of EvLogError p \<Rightarrow> True | _ \<Rightarrow> False)"

text \<open>The call that the loop over the statistic slots makes at position \<open>i\<close>.\<close>

definition stat_call :: "TokenResult \<Rightarrow> nat \<Rightarrow> event" where
  "stat_call r i = (if IsBlocked r then EvOnEntryBlocked i else EvOnEntryPassed i)"

text \<open>
  A trace without a panic and without a log line, and a trace that ends in the panic
  \<open>p\<close> and has no other.
\<close>

definition clean :: "event list \<Rightarrow> bool" where
  "clean tr = (\<forall>e \<in> set tr. \<not> is_panic e \<and> \<not> is_log e)"

definition panic_end :: "string \<Rightarrow> event list \<Rightarrow> bool" where
  "panic_end p tr = (\<exists>pre. tr = pre @ [EvPanic p] \<and> clean pre)"

subsection \<open>Example slots\<close>

text \<open>
  A statistic slot whose methods panic, one that counts its calls in a world that is a
  natural number, a rule-check slot that returns nil and one that blocks.
\<close>

definition panicking_stat :: "'w StatSlot" where
  "panicking_stat =
     \<lparr>OnEntryPassed = (\<lambda>ctx w. (Some ''boom'', ctx, w)),
      OnEntryBlocked = (\<lambda>ctx e w. (Some ''boom'', ctx, w)),
      OnCompleted = (\<lambda>ctx w. (Some ''boom'', ctx, w))\<rparr>"

definition counting_stat :: "nat StatSlot" where
  "counting_stat =
     \<lparr>OnEntryPassed = (\<lambda>ctx w. (None, ctx, Suc w)),
      OnEntryBlocked = (\<lambda>ctx e w. (None, ctx, Suc w)),
      OnCompleted = (\<lambda>ctx w. (None, ctx, Suc w))\<rparr>"

definition passing_check :: "'w RuleCheckSlot" where
  "passing_check = \<lparr>Check = (\<lambda>ctx w. (Inr None, ctx, w))\<rparr>"

definition blocking_check :: "'w RuleCheckSlot" where
  "blocking_check = \<lparr>Check = (\<lambda>ctx w. (Inr (Some (Blocked (BlockError ''flow''))), ctx, w))\<rparr>"

definition fresh_ctx :: EntryContext where
  "fresh_ctx =
     \<lparr>entry = Some SentinelEntry, startTime = 1000, rt = 0,
      Resource = \<lparr>Name = ''r'', FlowType = Inbound\<rparr>, StatNode = Some 1,
      Input = \<lparr>BatchCount = 3\<rparr>, RuleCheckResult = Pass, err = None\<rparr>"

definition blocked_ctx :: EntryContext where
  "blocked_ctx = fresh_ctx\<lparr>RuleCheckResult := Blocked (BlockError ''flow'')\<rparr>"

definition panic_then_count :: "nat SlotChain" where
  "panic_then_count =
     \<lparr>statPres = [], ruleChecks = [passing_check], stats = [panicking_stat, counting_stat]\<rparr>"

definition blocked_panic_then_count :: "nat SlotChain" where
  "blocked_panic_then_count =
     \<lparr>statPres = [], ruleChecks = [blocking_check], stats = [panicking_stat, counting_stat]\<rparr>"

definition blocked_count_twice :: "nat SlotChain" where
  "blocked_count_twice =
     \<lparr>statPres = [], ruleChecks = [blocking_check], stats = [counting_stat, counting_stat]\<rparr>"

section \<open>The flow rule-check slot\<close>

text \<open>
  Of a rule the slot reads the relation strategy and the referred resource. The
  method \<^verbatim>\<open>PerformChecking\<close> of a controller is defined outside the files verified
  here and is a field of the controller: code that gets the address of a node, the batch count
  and the flag, may change the world, and returns a nil-able token result. The list
  that \<^verbatim>\<open>getTrafficControllerListFor\<close> returns for the resource of the context is the
  parameter \<open>tcs\<close> of \<^verbatim>\<open>Check\<close>; a nil controller in it is \<open>None\<close>.
\<close>

datatype RelationStrategy = CurrentResource | AssociatedResource

record Rule =
  RelationStrategy :: RelationStrategy
  RefResource :: string

record TrafficShapingController =
  rule :: Rule
  PerformChecking :: "nat \<Rightarrow> u32 \<Rightarrow> int \<Rightarrow> World \<Rightarrow> TokenResult option \<times> World"

definition selectNodeByRelStrategy :: "Rule \<Rightarrow> nat option \<Rightarrow> World \<Rightarrow> nat option" where
  "selectNodeByRelStrategy r node w =
     (if RelationStrategy r = AssociatedResource then GetResourceNode w (RefResource r)
      else node)"

definition checkInLocal ::
  "TrafficShapingController \<Rightarrow> nat option \<Rightarrow> u32 \<Rightarrow> int \<Rightarrow> World \<Rightarrow> TokenResult option \<times> World"
where
  "checkInLocal tc resStat batchCount flag w =
     (case selectNodeByRelStrategy (rule tc) resStat w of
        None \<Rightarrow> (Some NewTokenResultPass, w)
      | Some actual \<Rightarrow> PerformChecking tc actual batchCount flag w)"

definition canPassCheckWithFlag ::
  "TrafficShapingController \<Rightarrow> nat option \<Rightarrow> u32 \<Rightarrow> int \<Rightarrow> World \<Rightarrow> TokenResult option \<times> World"
where
  "canPassCheckWithFlag tc node batchCount flag w = checkInLocal tc node batchCount flag w"

definition canPassCheck ::
  "TrafficShapingController \<Rightarrow> nat option \<Rightarrow> u32 \<Rightarrow> World \<Rightarrow> TokenResult option \<times> World"
where
  "canPassCheck tc node batchCount w = canPassCheckWithFlag tc node batchCount 0 w"

text \<open>
  The two statements of the waiting action: the counter \<^verbatim>\<open>flow_wait_total\<close> of the
  resource grows by the batch count, then \<^verbatim>\<open>util.Sleep\<close> is called.
\<close>

definition waited :: "EntryContext \<Rightarrow> int \<Rightarrow> World \<Rightarrow> World" where
  "waited ctx nanosToWait w =
     Sleep nanosToWait
       (w\<lparr>flowWaitCount :=
            counter_Add (unat (BatchCount (Input ctx))) [Name (Resource ctx)] (flowWaitCount w)\<rparr>)"

text \<open>
  The loop of \<^verbatim>\<open>Check\<close> over the controllers: \<open>Some r\<close> when it returns \<open>r\<close> from
  inside the loop, \<open>None\<close> when it runs to its end.
\<close>

fun check_loop ::
  "TrafficShapingController option list \<Rightarrow> EntryContext \<Rightarrow> World \<Rightarrow> TokenResult option \<times> World"
where
  "check_loop [] ctx w = (None, w)"
| "check_loop (None # tcs) ctx w = check_loop tcs ctx w"
| "check_loop (Some tc # tcs) ctx w =
     (case canPassCheck tc (StatNode ctx) (BatchCount (Input ctx)) w of
        (None, w') \<Rightarrow> check_loop tcs ctx w'
      | (Some r, w') \<Rightarrow>
          if Status r = ResultStatusBlocked then (Some r, w')
          else if Status r = ResultStatusShouldWait then
            (if NanosToWait r > 0 then check_loop tcs ctx (waited ctx (NanosToWait r) w')
             else check_loop tcs ctx w')
          else check_loop tcs ctx w')"

definition flow_Check ::
  "TrafficShapingController option list \<Rightarrow> EntryContext \<Rightarrow> World \<Rightarrow> TokenResult \<times> World"
where
  "flow_Check tcs ctx w =
     (let result = RuleCheckResult ctx
      in case check_loop tcs ctx w of
           (Some r, w') \<Rightarrow> (r, w')
         | (None, w') \<Rightarrow> (result, w'))"

section \<open>The statistic slot\<close>

definition recordPassFor :: "nat option \<Rightarrow> u32 \<Rightarrow> World \<Rightarrow> World" where
  "recordPassFor sn count w =
     (case sn of
        None \<Rightarrow> w
      | Some a \<Rightarrow>
          w\<lparr>nodes := (nodes w)
               (a := AddCount MetricEventPass (uint count) (IncreaseConcurrency (nodes w a)))\<rparr>)"

definition recordBlockFor :: "nat option \<Rightarrow> u32 \<Rightarrow> World \<Rightarrow> World" where
  "recordBlockFor sn count w =
     (case sn of
        None \<Rightarrow> w
      | Some a \<Rightarrow> w\<lparr>nodes := (nodes w)(a := AddCount MetricEventBlock (uint count) (nodes w a))\<rparr>)"

definition recordCompleteFor :: "nat option \<Rightarrow> u32 \<Rightarrow> u64 \<Rightarrow> string option \<Rightarrow> World \<Rightarrow> World" where
  "recordCompleteFor sn count rt' err' w =
     (case sn of
        None \<Rightarrow> w
      | Some a \<Rightarrow>
          let n0 = nodes w a;
              n1 = (if err' \<noteq> None then AddCount MetricEventError (uint count) n0 else n0);
              n2 = AddCount MetricEventRt (sint rt') n1;
              n3 = AddCount MetricEventComplete (uint count) n2
          in w\<lparr>nodes := (nodes w)(a := DecreaseConcurrency n3)\<rparr>)"

definition stat_OnEntryPassed :: "EntryContext \<Rightarrow> World \<Rightarrow> World" where
  "stat_OnEntryPassed ctx w =
     (let w1 = recordPassFor (StatNode ctx) (BatchCount (Input ctx)) w;
          w2 = (if FlowType (Resource ctx) = Inbound
                then recordPassFor (Some (inboundNode w1)) (BatchCount (Input ctx)) w1 else w1)
      in w2\<lparr>handledCounter :=
              counter_Add (unat (BatchCount (Input ctx))) [Name (Resource ctx), ''pass'', []]
                (handledCounter w2)\<rparr>)"

definition stat_OnEntryBlocked :: "EntryContext \<Rightarrow> BlockError \<Rightarrow> World \<Rightarrow> World" where
  "stat_OnEntryBlocked ctx blockError w =
     (let w1 = recordBlockFor (StatNode ctx) (BatchCount (Input ctx)) w;
          w2 = (if FlowType (Resource ctx) = Inbound
                then recordBlockFor (Some (inboundNode w1)) (BatchCount (Input ctx)) w1 else w1)
      in w2\<lparr>handledCounter :=
              counter_Add (unat (BatchCount (Input ctx)))
                [Name (Resource ctx), ''block'', BlockType blockError] (handledCounter w2)\<rparr>)"

text \<open>
  \<^verbatim>\<open>OnCompleted\<close> reads the clock (\<^verbatim>\<open>util.CurrentTimeMillis()\<close>); the reading is the
  parameter \<open>now\<close>.
\<close>

definition stat_OnCompleted :: "u64 \<Rightarrow> EntryContext \<Rightarrow> World \<Rightarrow> EntryContext \<times> World" where
  "stat_OnCompleted now ctx w =
     (let rt' = now - startTime ctx;
          ctx' = PutRt ctx rt';
          w1 = recordCompleteFor (StatNode ctx') (BatchCount (Input ctx')) rt' (err ctx') w;
          w2 = (if FlowType (Resource ctx') = Inbound
                then recordCompleteFor (Some (inboundNode w1)) (BatchCount (Input ctx')) rt' (err ctx') w1
                else w1)
      in (ctx', w2))"

text \<open>
  The accounting of the slot on one node, in the words of the specification: the
  batch count \<open>n\<close>, the response time \<open>r\<close>, and whether an error was traced.
\<close>

definition accounted_pass :: "int \<Rightarrow> NodeCounters \<Rightarrow> NodeCounters \<Rightarrow> bool" where
  "accounted_pass n sn sn' =
     (concurrency sn' = concurrency sn + 1 \<and>
      counters sn' MetricEventPass = counters sn MetricEventPass + n \<and>
      counters sn' MetricEventBlock = counters sn MetricEventBlock \<and>
      counters sn' MetricEventComplete = counters sn MetricEventComplete \<and>
      counters sn' MetricEventError = counters sn MetricEventError \<and>
      counters sn' MetricEventRt = counters sn MetricEventRt)"

definition accounted_block :: "int \<Rightarrow> NodeCounters \<Rightarrow> NodeCounters \<Rightarrow> bool" where
  "accounted_block n sn sn' =
     (concurrency sn' = concurrency sn \<and>
      counters sn' MetricEventBlock = counters sn MetricEventBlock + n \<and>
      counters sn' MetricEventPass = counters sn MetricEventPass \<and>
      counters sn' MetricEventComplete = counters sn MetricEventComplete \<and>
      counters sn' MetricEventError = counters sn MetricEventError \<and>
      counters sn' MetricEventRt = counters sn MetricEventRt)"

definition accounted_complete ::
  "int \<Rightarrow> int \<Rightarrow> bool \<Rightarrow> NodeCounters \<Rightarrow> NodeCounters \<Rightarrow> bool" where
  "accounted_complete n r traced sn sn' =
     (concurrency sn' = concurrency sn - 1 \<and>
      counters sn' MetricEventComplete = counters sn MetricEventComplete + n \<and>
      counters sn' MetricEventRt = counters sn MetricEventRt + r \<and>
      counters sn' MetricEventError = counters sn MetricEventError + (if traced then n else 0) \<and>
      counters sn' MetricEventPass = counters sn MetricEventPass \<and>
      counters sn' MetricEventBlock = counters sn MetricEventBlock)"

subsection \<open>Example world\<close>

definition zero_node :: NodeCounters where
  "zero_node = \<lparr>counters = (\<lambda>e. 0), concurrency = 0\<rparr>"

definition world0 :: World where
  "world0 =
     \<lparr>nodes = (\<lambda>a. zero_node), resNodeMap = (\<lambda>n. if n = ''r'' then Some 1 else None),
      inboundNode = 0, handledCounter = (\<lambda>l. 0), flowWaitCount = (\<lambda>l. 0), slept = []\<rparr>"

definition const_controller ::
  "RelationStrategy \<Rightarrow> string \<Rightarrow> TokenResult option \<Rightarrow> TrafficShapingController"
where
  "const_controller strategy ref r =
     \<lparr>rule = \<lparr>RelationStrategy = strategy, RefResource = ref\<rparr>,
      PerformChecking = (\<lambda>node batchCount flag w. (r, w))\<rparr>"

text \<open>Controllers whose check returns a fixed result.\<close>

definition pass_tc :: TrafficShapingController where
  "pass_tc = const_controller CurrentResource [] (Some Pass)"

definition block_tc :: TrafficShapingController where
  "block_tc = const_controller AssociatedResource ''r'' (Some (Blocked (BlockError ''flow'')))"

definition wait_tc :: TrafficShapingController where
  "wait_tc = const_controller CurrentResource [] (Some (ShouldWait 5))"

definition orphan_tc :: TrafficShapingController where
  "orphan_tc = const_controller AssociatedResource ''missing'' (Some (Blocked (BlockError ''flow'')))"

section \<open>The metric aggregator\<close>

text \<open>
  Modelled from the spec: the declarations of \<^verbatim>\<open>MetricItem\<close> and of the nodes that the
  aggregator reads are declared outside the files verified here. An item carries the
  timestamp of its bucket and the unsigned values \<open>pass\<close>, \<open>block\<close>, \<open>complete\<close>, \<open>error\<close>,
  \<open>avgRt\<close> and \<open>concurrency\<close>; a node has a name and a type, holds one item for each of
  its buckets, and \<^verbatim>\<open>MetricsOnCondition\<close> returns the items whose timestamp satisfies
  the predicate.
\<close>

record MetricItem =
  ItemResource :: string
  Classification :: int
  Timestamp :: u64
  PassQps :: u64
  BlockQps :: u64
  CompleteQps :: u64
  ErrorQps :: u64
  AvgRt :: u64
  Concurrency :: u32

record ResourceNode =
  ResourceName :: string
  ResourceType :: int
  bucketItems :: "MetricItem list"

definition MetricsOnCondition :: "ResourceNode \<Rightarrow> (u64 \<Rightarrow> bool) \<Rightarrow> MetricItem list" where
  "MetricsOnCondition node predicate = filter (\<lambda>item. predicate (Timestamp item)) (bucketItems node)"

text \<open>
  A Go map is an association list with distinct keys; \<^verbatim>\<open>m[k] = v\<close> is \<open>AList.update\<close>.
  The order of the keys in the list has no counterpart in the source.
\<close>

type_synonym metricTimeMap = "(u64 \<times> MetricItem list) list"

definition logFlushQueueSize :: nat where
  "logFlushQueueSize = 60"

text \<open>
  The package variables: \<^verbatim>\<open>lastFetchTime\<close> is an \<^verbatim>\<open>int64\<close>, kept as its 64 bits and
  read with \<open>sint\<close>, so that \<^verbatim>\<open>int64(x)\<close> of a \<^verbatim>\<open>uint64\<close> is \<open>x\<close> itself;
  \<^verbatim>\<open>writeChan\<close> is the content of the buffered channel, oldest first.
\<close>

record AggState =
  lastFetchTime :: u64
  writeChan :: "metricTimeMap list"

definition isActiveMetricItem :: "MetricItem \<Rightarrow> bool" where
  "isActiveMetricItem item =
     (PassQps item > 0 \<or> BlockQps item > 0 \<or> CompleteQps item > 0 \<or> ErrorQps item > 0 \<or>
      AvgRt item > 0 \<or> Concurrency item > 0)"

definition isItemTimestampInTime :: "u64 \<Rightarrow> u64 \<Rightarrow> u64 \<Rightarrow> bool" where
  "isItemTimestampInTime lastFetchTime' ts currentSecStart =
     (sint ts \<ge> sint lastFetchTime' \<and> ts < currentSecStart)"

definition currentMetricItems :: "u64 \<Rightarrow> ResourceNode \<Rightarrow> u64 \<Rightarrow> (u64 \<times> MetricItem) list" where
  "currentMetricItems lastFetchTime' retriever currentTime =
     (let items = MetricsOnCondition retriever
                    (\<lambda>ts. isItemTimestampInTime lastFetchTime' ts currentTime)
      in fold (\<lambda>item m. if \<not> isActiveMetricItem item then m
                         else AList.update (Timestamp item) item m) items [])"

definition aggregateIntoMap ::
  "metricTimeMap \<Rightarrow> (u64 \<times> MetricItem) list \<Rightarrow> ResourceNode \<Rightarrow> metricTimeMap" where
  "aggregateIntoMap mm metrics node =
     fold (\<lambda>(t, item) mm'.
             let item' = item\<lparr>ItemResource := ResourceName node,
                              Classification := ResourceType node\<rparr>
             in case map_of mm' t of
                  Some items \<Rightarrow> AList.update t (items @ [item']) mm'
                | None \<Rightarrow> AList.update t [item'] mm') metrics mm"

text \<open>
  A call of \<^verbatim>\<open>doAggregate\<close> either returns, or stays in the send \<^verbatim>\<open>writeChan <- maps\<close>
  because the channel is full: then it holds the batch, and the state is as the
  statements before the send have left it.
\<close>

datatype outcome = Returned AggState | BlockedOnSend AggState metricTimeMap

definition chan_send :: "metricTimeMap \<Rightarrow> AggState \<Rightarrow> outcome" where
  "chan_send maps st =
     (if length (writeChan st) < logFlushQueueSize
      then Returned (st\<lparr>writeChan := writeChan st @ [maps]\<rparr>)
      else BlockedOnSend st maps)"

text \<open>
  \<^verbatim>\<open>doAggregate\<close> reads the clock, the list of resource nodes and the inbound node;
  they are its parameters. \<open>build_maps\<close> is the part of it that fills \<^verbatim>\<open>maps\<close>.
\<close>

definition build_maps :: "u64 \<Rightarrow> ResourceNode list \<Rightarrow> ResourceNode \<Rightarrow> u64 \<Rightarrow> metricTimeMap" where
  "build_maps lastFetchTime' cns inbound curTime =
     (let maps = fold (\<lambda>node mm.
                   aggregateIntoMap mm (currentMetricItems lastFetchTime' node curTime) node)
                   cns []
      in aggregateIntoMap maps (currentMetricItems lastFetchTime' inbound curTime) inbound)"

definition doAggregate :: "u64 \<Rightarrow> ResourceNode list \<Rightarrow> ResourceNode \<Rightarrow> AggState \<Rightarrow> outcome" where
  "doAggregate now cns inbound st =
     (let curTime = now - now mod 1000
      in if sint curTime \<le> sint (lastFetchTime st) then Returned st
         else
           let maps = build_maps (lastFetchTime st) cns inbound curTime;
               st' = st\<lparr>lastFetchTime := curTime\<rparr>
           in if length maps > 0 then chan_send maps st' else Returned st')"

definition state_of :: "outcome \<Rightarrow> AggState" where
  "state_of out = (case out of Returned st \<Rightarrow> st | BlockedOnSend st m \<Rightarrow> st)"

definition handed_over :: "AggState \<Rightarrow> outcome \<Rightarrow> metricTimeMap list" where
  "handed_over st out =
     (case out of
        Returned st' \<Rightarrow> drop (length (writeChan st)) (writeChan st')
      | BlockedOnSend st' m \<Rightarrow> [m])"

text \<open>
  The two goroutines of \<^verbatim>\<open>InitTask\<close> as one system. A tick calls \<^verbatim>\<open>doAggregate\<close>
  unless the aggregating goroutine still stays in a send; a turn of \<^verbatim>\<open>writeTaskLoop\<close>
  receives the oldest batch of the channel, which lets a waiting send complete.
  \<open>received\<close> lists the batches the flush loop has taken, in order.
\<close>

record Sys =
  agg :: AggState
  pending :: "metricTimeMap option"
  received :: "metricTimeMap list"

datatype sys_step = Tick u64 "ResourceNode list" ResourceNode | Flush

fun step :: "sys_step \<Rightarrow> Sys \<Rightarrow> Sys" where
  "step (Tick now cns inbound) s =
     (case pending s of
        Some m \<Rightarrow> s
      | None \<Rightarrow>
          (case doAggregate now cns inbound (agg s) of
             Returned st \<Rightarrow> s\<lparr>agg := st\<rparr>
           | BlockedOnSend st m \<Rightarrow> s\<lparr>agg := st, pending := Some m\<rparr>))"
| "step Flush s =
     (case writeChan (agg s) of
        [] \<Rightarrow> s
      | m # rest \<Rightarrow>
          (case pending s of
             None \<Rightarrow> s\<lparr>agg := (agg s)\<lparr>writeChan := rest\<rparr>, received := received s @ [m]\<rparr>
           | Some m' \<Rightarrow>
               s\<lparr>agg := (agg s)\<lparr>writeChan := rest @ [m']\<rparr>, pending := None,
                 received := received s @ [m]\<rparr>))"

definition init_sys :: Sys where
  "init_sys = \<lparr>agg = \<lparr>lastFetchTime = - 1, writeChan = []\<rparr>, pending = None, received = []\<rparr>"

definition run :: "sys_step list \<Rightarrow> Sys \<Rightarrow> Sys" where
  "run steps s = fold step steps s"

definition published :: "Sys \<Rightarrow> metricTimeMap list" where
  "published s =
     received s @ writeChan (agg s) @ (case pending s of None \<Rightarrow> [] | Some m \<Rightarrow> [m])"

definition times_published :: "u64 \<Rightarrow> Sys \<Rightarrow> nat" where
  "times_published T s = length (filter (\<lambda>m. T \<in> fst ` set m) (published s))"

text \<open>An item whose six values are all zero.\<close>

definition all_zero :: "MetricItem \<Rightarrow> bool" where
  "all_zero item =
     (PassQps item = 0 \<and> BlockQps item = 0 \<and> CompleteQps item = 0 \<and> ErrorQps item = 0 \<and>
      AvgRt item = 0 \<and> Concurrency item = 0)"

text \<open>
  What holds of an item and of an entry of the map that a tick builds, and the
  invariant of the system: the last fetch time is at least its initial value, the
  keys of every published batch lie below it, and no key occurs in two batches.
\<close>

definition item_ok :: "u64 \<Rightarrow> u64 \<Rightarrow> u64 \<Rightarrow> MetricItem \<Rightarrow> bool" where
  "item_ok lft cur t item =
     (Timestamp item = t \<and> isItemTimestampInTime lft t cur \<and> isActiveMetricItem item)"

definition entry_ok :: "u64 \<Rightarrow> u64 \<Rightarrow> u64 \<times> MetricItem list \<Rightarrow> bool" where
  "entry_ok lft cur e = (snd e \<noteq> [] \<and> (\<forall>item \<in> set (snd e). item_ok lft cur (fst e) item))"

definition sys_inv :: "Sys \<Rightarrow> bool" where
  "sys_inv s =
     (- 1 \<le> sint (lastFetchTime (agg s)) \<and>
      (\<forall>m \<in> set (published s). \<forall>t \<in> fst ` set m. sint t < sint (lastFetchTime (agg s))) \<and>
      (\<forall>T. times_published T s \<le> 1))"

subsection \<open>Example nodes\<close>

definition item_at :: "u64 \<Rightarrow> u64 \<Rightarrow> MetricItem" where
  "item_at ts pass =
     \<lparr>ItemResource = [], Classification = 0, Timestamp = ts, PassQps = pass, BlockQps = 0,
      CompleteQps = 0, ErrorQps = 0, AvgRt = 0, Concurrency = 0\<rparr>"

definition node_r :: ResourceNode where
  "node_r = \<lparr>ResourceName = ''r'', ResourceType = 1,
             bucketItems = [item_at 61000 0, item_at 62000 3, item_at 63000 7]\<rparr>"

definition node_inbound :: ResourceNode where
  "node_inbound = \<lparr>ResourceName = ''inbound'', ResourceType = 0, bucketItems = []\<rparr>"

text \<open>
  Sixty ticks, one second apart, that each find one active item in the inbound node
  and hand over one batch, with no flush in between; the state they lead to from the
  initial one; the batch that the next tick builds from \<open>node_r\<close>; and the states
  before and after a tick with an empty channel.
\<close>

definition node_at :: "nat \<Rightarrow> ResourceNode" where
  "node_at k =
     \<lparr>ResourceName = [], ResourceType = 0, bucketItems = [item_at (of_nat k * 1000) 1]\<rparr>"

definition sixty_ticks :: "sys_step list" where
  "sixty_ticks = map (\<lambda>k. Tick (of_nat k * 1000 + 1500) [] (node_at k)) [1 ..< 61]"

definition full_state :: AggState where
  "full_state =
     \<lparr>lastFetchTime = 61000,
      writeChan = map (\<lambda>k. [(of_nat k * 1000, [item_at (of_nat k * 1000) 1])]) [1 ..< 61]\<rparr>"

definition batch_r :: metricTimeMap where
  "batch_r =
     [(62000, [(item_at 62000 3)\<lparr>ItemResource := ''r'', Classification := 1\<rparr>]),
      (63000, [(item_at 63000 7)\<lparr>ItemResource := ''r'', Classification := 1\<rparr>])]"

definition state_before :: AggState where
  "state_before = \<lparr>lastFetchTime = 61000, writeChan = []\<rparr>"

definition state_after :: AggState where
  "state_after = \<lparr>lastFetchTime = 64000, writeChan = [batch_r]\<rparr>"

section \<open>Facts about words\<close>

lemma uint_ucast_32_64: "uint (ucast (b :: u32) :: u64) = uint b"
  by (rule uint_up_ucast) (simp add: is_up)

lemma unat_ucast_32_64: "unat (ucast (b :: u32) :: u64) = unat b"
  by (metis uint_ucast_32_64 unat_eq_nat_uint)

lemma sint_small_uint: "uint (w :: u64) < 2 ^ 63 \<Longrightarrow> sint w = uint w"
  unfolding sint_uint
  by (rule signed_take_bit_int_eq_self) (simp_all add: order_trans [OF _ uint_ge_0])

lemma sint_small:
  assumes "unat (w :: u64) < 2 ^ 63"
  shows "sint w = int (unat w)"
proof -
  have "int (unat w) < int (2 ^ 63)" using assms by (simp only: of_nat_less_iff)
  then have "uint w < 2 ^ 63" by (simp only: uint_nat) simp
  then have "sint w = uint w" by (rule sint_small_uint)
  then show ?thesis by (simp only: uint_nat)
qed

lemma start_unat:
  fixes now :: u64 and bl :: u32
  shows "unat (now - now mod ucast bl) = unat now - unat now mod unat bl"
proof -
  have "now mod ucast bl \<le> now"
    by (simp add: word_le_nat_alt unat_mod)
  then show ?thesis
    by (simp add: unat_sub unat_mod unat_ucast_32_64)
qed

lemma start_contains_now:
  fixes now :: u64 and bl :: u32
  assumes "bl \<noteq> 0"
  shows "unat (now - now mod ucast bl) \<le> unat now \<and>
         unat now < unat (now - now mod ucast bl) + unat bl"
proof -
  have pos: "0 < unat bl" using assms by (simp add: unat_gt_0)
  have "unat now mod unat bl < unat bl" using pos by simp
  moreover have "unat now mod unat bl \<le> unat now" by simp
  ultimately show ?thesis unfolding start_unat by linarith
qed

lemma go_rem_nonneg: "go_rem (int a) (int b) = int (a mod b)"
  by (cases "a = 0") (simp_all add: go_rem_def zmod_int)

section \<open>The sliding window: what the ring returns\<close>

lemma spin_Some:
  assumes "spin la bg idx bucketStart = Some y"
  shows "spin_post la bg idx bucketStart y"
proof (rule spin.raw_induct [where P = spin_post, OF _ assms])
  fix f :: "'v LeapArray \<Rightarrow> 'v BucketGenerator \<Rightarrow> int \<Rightarrow> u64
     \<Rightarrow> (error + 'v BucketWrap \<times> 'v LeapArray) option"
  fix la bg idx bucketStart y
  assume IH: "\<And>la bg idx bucketStart y. f la bg idx bucketStart = Some y
                \<Longrightarrow> spin_post la bg idx bucketStart y"
  assume body: "(case get (array la) idx of
        None \<Rightarrow>
          (let newWrap = \<lparr>BucketStart = bucketStart, Value = NewEmptyBucket bg\<rparr>;
               cas = compareAndSet (array la) idx None (Some newWrap)
           in if fst cas then Some (Inr (newWrap, la\<lparr>array := snd cas\<rparr>))
              else f la bg idx bucketStart)
      | Some old \<Rightarrow>
          if bucketStart = BucketStart old then Some (Inr (old, la))
          else if bucketStart > BucketStart old then
            (if \<not> updateLock la then
               (let old' = ResetBucketTo bg old bucketStart
                in Some (Inr (old',
                     la\<lparr>array := (array la)\<lparr>data := (data (array la))[nat idx := Some old']\<rparr>\<rparr>)))
             else f la bg idx bucketStart)
          else
            (if sampleCount la = 1 then Some (Inr (old, la))
             else Some (Inl (TimeBehind bucketStart (BucketStart old))))) = Some y"
  show "spin_post la bg idx bucketStart y"
  proof (cases "f la bg idx bucketStart = Some y")
    case True
    then show ?thesis by (rule IH)
  next
    case False
    with body show ?thesis
      by (auto simp: spin_post_def compareAndSet_def Let_def split: option.splits if_splits)
  qed
qed

lemma length_fill: "length (fst (fill v bl idxs acc)) = length (fst acc)"
  unfolding fill_def
  by (induction idxs arbitrary: acc) (auto simp: case_prod_beta)

lemma NewAtomicBucketWrapArrayWithTime_length:
  assumes "NewAtomicBucketWrapArrayWithTime len bl now g = Inr arr"
  shows "length_arr arr = len \<and> length (data arr) = nat len"
  using assms
  by (auto simp: NewAtomicBucketWrapArrayWithTime_def Let_def length_fill split: if_splits)

lemma NewLeapArray_valid:
  assumes "NewLeapArray sc iv g t0 = Inr la"
  shows "valid_ring la"
proof -
  from assms obtain gen arr where
    p: "sc \<noteq> 0" "iv mod sc = 0" and
    arr: "NewAtomicBucketWrapArrayWithTime (uint sc) (iv div sc) t0 gen = Inr arr" and
    la: "la = \<lparr>bucketLengthInMs = iv div sc, sampleCount = sc, intervalInMs = iv,
               array = arr, updateLock = False\<rparr>"
    by (auto simp: NewLeapArray_def Let_def split: if_splits option.splits sum.splits)
  from NewAtomicBucketWrapArrayWithTime_length [OF arr]
  have "length_arr arr = uint sc" and "length (data arr) = unat sc"
    by (simp_all only: unat_eq_nat_uint)
  with p la show ?thesis by (simp add: valid_ring_def)
qed

lemma currentBucketOfTime_valid:
  assumes "valid_ring la" and "currentBucketOfTime la now bg = Some (Inr (w, la'))"
  shows "valid_ring la'"
proof -
  from assms(2) obtain idx bs where "spin la bg idx bs = Some (Inr (w, la'))"
    by (auto simp: currentBucketOfTime_def split: if_splits sum.splits)
  then have "spin_post la bg idx bs (Inr (w, la'))" by (rule spin_Some)
  with assms(1) show ?thesis
    by (auto simp: spin_post_def valid_ring_def split: option.splits if_splits)
qed

lemma calculateTimeIdx_formula:
  assumes "valid_ring la" and "calculateTimeIdx la now = Inr idx"
    and "unat now div unat (bucketLengthInMs la) < 2 ^ 63"
  shows "idx = int ((unat now div unat (bucketLengthInMs la)) mod unat (sampleCount la))"
proof -
  let ?t = "now div ucast (bucketLengthInMs la)"
  have ut: "unat ?t = unat now div unat (bucketLengthInMs la)"
    by (simp only: unat_div unat_ucast_32_64)
  have st: "sint ?t = int (unat now div unat (bucketLengthInMs la))"
    using assms(3) sint_small [of ?t] by (simp only: ut)
  have len: "length_arr (array la) = int (unat (sampleCount la))"
    using assms(1) by (simp only: valid_ring_def uint_nat)
  have "idx = go_rem (sint ?t) (length_arr (array la))"
    using assms(2) by (auto simp: calculateTimeIdx_def Let_def split: if_splits)
  then show ?thesis
    by (simp only: st len go_rem_nonneg)
qed

lemma resets_start_plain: "resets_start plain_generator"
  by (simp add: resets_start_def plain_generator_def resetTo_def)

lemma ring1_built:
  "NewLeapArray 1 1000 (Some plain_generator) 2000 = Inr (ring_of 1 1000 [2000])"
  by code_simp

lemma ring5_built:
  "NewLeapArray 5 1000 (Some plain_generator) 1188
     = Inr (ring_of 5 1000 [1000, 1200, 1400, 1600, 1800])"
  by code_simp

lemma ring5_at_2300:
  "currentBucketOfTime (ring_of 5 1000 [1000, 1200, 1400, 1600, 1800]) 2300 plain_generator
     = Some (Inr (bucket_at 2200, ring_of 5 1000 [1000, 2200, 1400, 1600, 1800]))"
  by code_simp

text \<open>
  C1, as amended. For a ring built with valid parameters and a generator that resets a
  wrap to the start it is given: whenever \<^verbatim>\<open>currentBucketOfTime(now)\<close> returns a wrap
  without error, the wrap is the one the slot \<open>idx\<close> holds afterwards, where \<open>idx\<close> is
  \<open>(now / bucketLengthInMs) mod sampleCount\<close> as long as \<open>now / bucketLengthInMs\<close> is
  below \<open>2^63\<close> (the conversion to \<^verbatim>\<open>int\<close> is exact); and either the start of the wrap
  is \<open>now - (now mod bucketLengthInMs)\<close> and \<open>start \<le> now < start + bucketLengthInMs\<close>
  holds, or \<open>sampleCount\<close> is 1 and the wrap is the bucket that the slot held already,
  returned as it is, whose start is greater than the start computed from \<open>now\<close>.
\<close>

theorem currentBucketOfTime_covers_now:
  assumes "valid_ring la" and "resets_start bg"
    and "currentBucketOfTime la now bg = Some (Inr (w, la'))"
  shows "\<exists>idx. calculateTimeIdx la now = Inr idx \<and> get (array la') idx = Some w \<and>
            (unat now div unat (bucketLengthInMs la) < 2 ^ 63 \<longrightarrow>
               idx = int ((unat now div unat (bucketLengthInMs la)) mod unat (sampleCount la))) \<and>
            ((BucketStart w = now - now mod ucast (bucketLengthInMs la) \<and>
              unat (BucketStart w) \<le> unat now \<and>
              unat now < unat (BucketStart w) + unat (bucketLengthInMs la))
             \<or> (sampleCount la = 1 \<and> get (array la) idx = Some w \<and> la' = la \<and>
                 now - now mod ucast (bucketLengthInMs la) < BucketStart w))"
proof -
  from assms(3) obtain idx where idx: "calculateTimeIdx la now = Inr idx"
    by (auto simp: currentBucketOfTime_def split: if_splits sum.splits)
  from idx have bl: "bucketLengthInMs la \<noteq> 0"
    by (auto simp: calculateTimeIdx_def split: if_splits)
  let ?bs = "now - now mod ucast (bucketLengthInMs la)"
  have cst: "calculateStartTime now (bucketLengthInMs la) = Inr ?bs"
    using bl by (simp add: calculateStartTime_def)
  from assms(3) idx cst have "spin la bg idx ?bs = Some (Inr (w, la'))"
    by (auto simp: currentBucketOfTime_def split: if_splits)
  then have post: "spin_post la bg idx ?bs (Inr (w, la'))" by (rule spin_Some)
  note cover = start_contains_now [OF bl, of now]
  have rs: "\<And>old. BucketStart (ResetBucketTo bg old ?bs) = ?bs"
    using assms(2) by (simp add: resets_start_def)
  have held: "get (array la') idx = Some w"
    using post
    by (auto simp: spin_post_def get_def split: option.splits if_splits)
  have main: "(BucketStart w = ?bs \<and> unat (BucketStart w) \<le> unat now \<and>
              unat now < unat (BucketStart w) + unat (bucketLengthInMs la))
             \<or> (sampleCount la = 1 \<and> get (array la) idx = Some w \<and> la' = la \<and> ?bs < BucketStart w)"
  proof (cases "get (array la) idx")
    case None
    with post have "BucketStart w = ?bs" by (auto simp: spin_post_def)
    with cover show ?thesis by simp
  next
    case (Some old)
    show ?thesis
    proof (cases "?bs = BucketStart old")
      case True
      with post Some have "w = old" by (auto simp: spin_post_def)
      with True cover show ?thesis by simp
    next
      case ne: False
      show ?thesis
      proof (cases "BucketStart old < ?bs")
        case True
        with post Some ne have "w = ResetBucketTo bg old ?bs" by (auto simp: spin_post_def)
        then have "BucketStart w = ?bs" using rs by simp
        with cover show ?thesis by simp
      next
        case False
        with ne have "?bs < BucketStart old" by auto
        moreover from post Some ne False have "sampleCount la = 1 \<and> w = old \<and> la' = la"
          by (auto simp: spin_post_def split: if_splits)
        ultimately show ?thesis using Some by simp
      qed
    qed
  qed
  from idx held main calculateTimeIdx_formula [OF assms(1) idx] show ?thesis by blast
qed

theorem currentBucketOfTime_covers_now_witness:
  "valid_ring (ring_of 5 1000 [1000, 1200, 1400, 1600, 1800]) \<and> resets_start plain_generator \<and>
   currentBucketOfTime (ring_of 5 1000 [1000, 1200, 1400, 1600, 1800]) 2300 plain_generator
      = Some (Inr (bucket_at 2200, ring_of 5 1000 [1000, 2200, 1400, 1600, 1800])) \<and>
   get (array (ring_of 5 1000 [1000, 2200, 1400, 1600, 1800])) 1 = Some (bucket_at 2200) \<and>
   BucketStart (bucket_at 2200) = 2300 - 2300 mod 200 \<and>
   unat (BucketStart (bucket_at 2200)) \<le> unat (2300 :: u64) \<and>
   unat (2300 :: u64) < unat (BucketStart (bucket_at 2200)) + 200"
proof -
  have v: "valid_ring (ring_of 5 1000 [1000, 1200, 1400, 1600, 1800])"
    using ring5_built by (rule NewLeapArray_valid)
  have i: "calculateTimeIdx (ring_of 5 1000 [1000, 1200, 1400, 1600, 1800]) 2300 = Inr 1"
    by code_simp
  have s: "sampleCount (ring_of 5 1000 [1000, 1200, 1400, 1600, 1800]) \<noteq> 1"
    by (simp add: ring_of_def)
  have b: "bucketLengthInMs (ring_of 5 1000 [1000, 1200, 1400, 1600, 1800]) = 200"
    by (simp add: ring_of_def)
  show ?thesis
    using currentBucketOfTime_covers_now [OF v resets_start_plain ring5_at_2300]
      v resets_start_plain ring5_at_2300 i s b
    by auto
qed

theorem currentBucketOfTime_single_slot_counterexample:
  "NewLeapArray 1 1000 (Some plain_generator) 2000 = Inr (ring_of 1 1000 [2000]) \<and>
   currentBucketOfTime (ring_of 1 1000 [2000]) 1500 plain_generator
      = Some (Inr (bucket_at 2000, ring_of 1 1000 [2000])) \<and>
   \<not> (unat (BucketStart (bucket_at 2000)) \<le> unat (1500 :: u64))"
  by code_simp

text \<open>
  C8. In \<^verbatim>\<open>currentBucketOfTime\<close> with \<open>now > 0\<close>, when the bucket that the slot holds
  starts strictly after the start computed from \<open>now\<close>: if \<open>sampleCount\<close> is 1 the held
  bucket is returned without error, and the ring is as it was; if \<open>sampleCount\<close> is
  greater than 1 the call returns the error "time is behind" and no bucket.
\<close>

theorem currentBucketOfTime_time_in_past:
  assumes "0 < now"
    and "calculateTimeIdx la now = Inr idx"
    and "calculateStartTime now (bucketLengthInMs la) = Inr bucketStart"
    and "get (array la) idx = Some old"
    and "bucketStart < BucketStart old"
  shows "(sampleCount la = 1 \<longrightarrow> currentBucketOfTime la now bg = Some (Inr (old, la))) \<and>
         (1 < sampleCount la \<longrightarrow>
            currentBucketOfTime la now bg = Some (Inl (TimeBehind bucketStart (BucketStart old))))"
proof -
  have now: "\<not> now \<le> 0" using assms(1) by (simp add: word_neq_0_conv)
  have "spin la bg idx bucketStart =
          (if sampleCount la = 1 then Some (Inr (old, la))
           else Some (Inl (TimeBehind bucketStart (BucketStart old))))"
    using assms(4,5) by (subst spin.simps) auto
  then show ?thesis
    using now assms(2,3) by (auto simp: currentBucketOfTime_def)
qed

theorem currentBucketOfTime_time_in_past_witness:
  "0 < (1500 :: u64) \<and>
   calculateTimeIdx (ring_of 1 1000 [2000]) 1500 = Inr 0 \<and>
   calculateStartTime 1500 (bucketLengthInMs (ring_of 1 1000 [2000])) = Inr 1000 \<and>
   get (array (ring_of 1 1000 [2000])) 0 = Some (bucket_at 2000) \<and>
   1000 < BucketStart (bucket_at 2000) \<and>
   sampleCount (ring_of 1 1000 [2000]) = 1 \<and>
   currentBucketOfTime (ring_of 1 1000 [2000]) 1500 plain_generator
     = Some (Inr (bucket_at 2000, ring_of 1 1000 [2000])) \<and>
   0 < (999 :: u64) \<and>
   calculateTimeIdx (ring_of 5 1000 [1000, 1200, 1400, 1600, 1800]) 999 = Inr 4 \<and>
   calculateStartTime 999 (bucketLengthInMs (ring_of 5 1000 [1000, 1200, 1400, 1600, 1800])) = Inr 800 \<and>
   get (array (ring_of 5 1000 [1000, 1200, 1400, 1600, 1800])) 4 = Some (bucket_at 1800) \<and>
   800 < BucketStart (bucket_at 1800) \<and>
   1 < sampleCount (ring_of 5 1000 [1000, 1200, 1400, 1600, 1800]) \<and>
   currentBucketOfTime (ring_of 5 1000 [1000, 1200, 1400, 1600, 1800]) 999 plain_generator
     = Some (Inl (TimeBehind 800 (BucketStart (bucket_at 1800))))"
proof -
  let ?r1 = "ring_of 1 1000 [2000]" and ?r5 = "ring_of 5 1000 [1000, 1200, 1400, 1600, 1800]"
  have a1: "0 < (1500 :: u64)" by simp
  have a2: "calculateTimeIdx ?r1 1500 = Inr 0" by code_simp
  have a3: "calculateStartTime 1500 (bucketLengthInMs ?r1) = Inr 1000" by code_simp
  have a4: "get (array ?r1) 0 = Some (bucket_at 2000)" by code_simp
  have a5: "1000 < BucketStart (bucket_at 2000)" by code_simp
  have a6: "sampleCount ?r1 = 1" by code_simp
  have b1: "0 < (999 :: u64)" by simp
  have b2: "calculateTimeIdx ?r5 999 = Inr 4" by code_simp
  have b3: "calculateStartTime 999 (bucketLengthInMs ?r5) = Inr 800" by code_simp
  have b4: "get (array ?r5) 4 = Some (bucket_at 1800)" by code_simp
  have b5: "800 < BucketStart (bucket_at 1800)" by code_simp
  have b6: "1 < sampleCount ?r5" by code_simp
  from currentBucketOfTime_time_in_past [OF a1 a2 a3 a4 a5, of plain_generator]
       currentBucketOfTime_time_in_past [OF b1 b2 b3 b4 b5, of plain_generator]
       a1 a2 a3 a4 a5 a6 b1 b2 b3 b4 b5 b6
  show ?thesis by simp
qed

lemma collect_subset:
  "set (collect skip aa idxs ret) \<subseteq> set ret \<union> {ww. \<not> skip ww}"
proof (induction idxs arbitrary: ret)
  case Nil
  show ?case by simp
next
  case (Cons i idxs)
  show ?case
  proof (cases "get aa (int i)")
    case None
    then show ?thesis using Cons.IH [of ret] by simp
  next
    case (Some ww)
    show ?thesis
    proof (cases "skip ww")
      case True
      then show ?thesis using Some Cons.IH [of ret] by simp
    next
      case False
      then show ?thesis using Some Cons.IH [of "ret @ [ww]"] by auto
    qed
  qed
qed

text \<open>
  C9. A wrap in the list that \<^verbatim>\<open>valuesWithTime(now)\<close> returns is not expired at \<open>now\<close>:
  \<open>now - start > intervalInMs\<close> does not hold for it, neither in the \<^verbatim>\<open>uint64\<close>
  arithmetic of the source nor over the integers. So a bucket that was in the list for
  an earlier time and has expired at \<open>now\<close> is not in the list for \<open>now\<close>. (For
  \<open>now = 0\<close> the list is empty.)
\<close>

theorem valuesWithTime_excludes_expired:
  assumes "ww \<in> set (valuesWithTime la now)"
  shows "\<not> isBucketDeprecated la now ww \<and>
         \<not> (now - BucketStart ww > ucast (intervalInMs la)) \<and>
         \<not> (int (unat now) - int (unat (BucketStart ww)) > int (unat (intervalInMs la)))"
proof -
  from assms have nd: "\<not> isBucketDeprecated la now ww"
    using collect_subset [of "\<lambda>ww. isBucketDeprecated la now ww" "array la" _ "[]"]
    by (auto simp: valuesWithTime_def split: if_splits)
  then have w: "\<not> (now - BucketStart ww > ucast (intervalInMs la))"
    by (simp add: isBucketDeprecated_def)
  have "\<not> (int (unat now) - int (unat (BucketStart ww)) > int (unat (intervalInMs la)))"
  proof (cases "unat (BucketStart ww) \<le> unat now")
    case True
    then have "unat (now - BucketStart ww) = unat now - unat (BucketStart ww)"
      by (simp add: unat_sub word_le_nat_alt)
    with w have "\<not> unat (intervalInMs la) < unat now - unat (BucketStart ww)"
      by (simp add: word_less_nat_alt unat_ucast_32_64)
    then show ?thesis using True by linarith
  next
    case False
    then show ?thesis by linarith
  qed
  with nd w show ?thesis by simp
qed

theorem valuesWithTime_excludes_expired_witness:
  "bucket_at 1200 \<in> set (valuesWithTime (ring_of 5 1000 [1000, 1200, 1400, 1600, 1800]) 2100) \<and>
   \<not> isBucketDeprecated (ring_of 5 1000 [1000, 1200, 1400, 1600, 1800]) 2100 (bucket_at 1200) \<and>
   \<not> (2100 - BucketStart (bucket_at 1200)
        > (ucast (intervalInMs (ring_of 5 1000 [1000, 1200, 1400, 1600, 1800])) :: u64)) \<and>
   bucket_at 1000 \<notin> set (valuesWithTime (ring_of 5 1000 [1000, 1200, 1400, 1600, 1800]) 2100) \<and>
   bucket_at 1000 \<in> set (valuesWithTime (ring_of 5 1000 [1000, 1200, 1400, 1600, 1800]) 2000)"
proof -
  let ?r5 = "ring_of 5 1000 [1000, 1200, 1400, 1600, 1800]"
  have m: "bucket_at 1200 \<in> set (valuesWithTime ?r5 2100)" by code_simp
  have n: "bucket_at 1000 \<notin> set (valuesWithTime ?r5 2100)" by code_simp
  have k: "bucket_at 1000 \<in> set (valuesWithTime ?r5 2000)" by code_simp
  from valuesWithTime_excludes_expired [OF m] m n k show ?thesis by simp
qed

lemma future_start_deprecated:
  assumes "now < BucketStart ww"
    and "unat (intervalInMs la) < 2 ^ 64 - unat (BucketStart ww)"
  shows "isBucketDeprecated la now ww"
proof -
  have lt: "unat now < unat (BucketStart ww)" using assms(1) by (simp add: word_less_nat_alt)
  have "unat (now - BucketStart ww) = unat now + 2 ^ 64 - unat (BucketStart ww)"
    using lt by (simp add: unat_sub_if')
  then have "unat (intervalInMs la) < unat (now - BucketStart ww)"
    using assms(2) by linarith
  then show ?thesis
    by (simp add: isBucketDeprecated_def word_less_nat_alt unat_ucast_32_64)
qed

text \<open>
  C10. Expiry is decided by the \<^verbatim>\<open>uint64\<close> subtraction \<open>now - start\<close>, which wraps
  around: a bucket whose start is strictly greater than \<open>now\<close>, with
  \<open>intervalInMs < 2^64 - start\<close>, is classified as expired, and neither
  \<^verbatim>\<open>valuesWithTime(now)\<close> nor \<^verbatim>\<open>ValuesConditional(now, predicate)\<close> returns it. The
  slots that the construction of a ring fills with start times after the instant of
  construction are such buckets.
\<close>

theorem future_start_buckets_excluded:
  assumes "now < BucketStart ww"
    and "unat (intervalInMs la) < 2 ^ 64 - unat (BucketStart ww)"
  shows "isBucketDeprecated la now ww \<and>
         ww \<notin> set (valuesWithTime la now) \<and>
         ww \<notin> set (ValuesConditional la now predicate)"
proof -
  have d: "isBucketDeprecated la now ww" using assms by (rule future_start_deprecated)
  have v: "ww \<notin> set (valuesWithTime la now)"
    using d collect_subset [of "\<lambda>ww. isBucketDeprecated la now ww" "array la" _ "[]"]
    by (auto simp: valuesWithTime_def)
  have c: "ww \<notin> set (ValuesConditional la now predicate)"
    using d collect_subset [of "\<lambda>ww. isBucketDeprecated la now ww \<or> \<not> predicate (BucketStart ww)"
                               "array la" _ "[]"]
    by (auto simp: ValuesConditional_def)
  from d v c show ?thesis by simp
qed

theorem future_start_buckets_excluded_witness:
  "NewLeapArray 5 1000 (Some plain_generator) 1188
     = Inr (ring_of 5 1000 [1000, 1200, 1400, 1600, 1800]) \<and>
   get (array (ring_of 5 1000 [1000, 1200, 1400, 1600, 1800])) 1 = Some (bucket_at 1200) \<and>
   1188 < BucketStart (bucket_at 1200) \<and>
   unat (intervalInMs (ring_of 5 1000 [1000, 1200, 1400, 1600, 1800]))
     < 2 ^ 64 - unat (BucketStart (bucket_at 1200)) \<and>
   isBucketDeprecated (ring_of 5 1000 [1000, 1200, 1400, 1600, 1800]) 1188 (bucket_at 1200) \<and>
   bucket_at 1200 \<notin> set (valuesWithTime (ring_of 5 1000 [1000, 1200, 1400, 1600, 1800]) 1188) \<and>
   bucket_at 1200 \<notin> set (ValuesConditional (ring_of 5 1000 [1000, 1200, 1400, 1600, 1800]) 1188
                            (\<lambda>ts. True)) \<and>
   valuesWithTime (ring_of 5 1000 [1000, 1200, 1400, 1600, 1800]) 1188 = [bucket_at 1000]"
proof -
  let ?r5 = "ring_of 5 1000 [1000, 1200, 1400, 1600, 1800]"
  have g: "get (array ?r5) 1 = Some (bucket_at 1200)" by code_simp
  have a: "1188 < BucketStart (bucket_at 1200)" by code_simp
  have b: "unat (intervalInMs ?r5) < 2 ^ 64 - unat (BucketStart (bucket_at 1200))"
    by (simp add: ring_of_def bucket_at_def)
  have v: "valuesWithTime ?r5 1188 = [bucket_at 1000]" by code_simp
  from future_start_buckets_excluded [OF a b, of "\<lambda>ts. True"] ring5_built g a b v
  show ?thesis by (simp only: simp_thms)
qed

section \<open>The slot chain: panics and the statistic slots\<close>

lemma clean_Nil: "clean []"
  by (simp add: clean_def)

lemma clean_Cons: "clean (e # tr) \<longleftrightarrow> \<not> is_panic e \<and> \<not> is_log e \<and> clean tr"
  by (auto simp: clean_def)

lemma clean_append: "clean (xs @ ys) \<longleftrightarrow> clean xs \<and> clean ys"
  by (auto simp: clean_def)

lemma panic_end_Cons:
  "\<not> is_panic e \<Longrightarrow> \<not> is_log e \<Longrightarrow> panic_end p tr \<Longrightarrow> panic_end p (e # tr)"
  unfolding panic_end_def
  by (metis append_Cons clean_Cons)

lemma panic_end_single: "\<not> is_panic e \<Longrightarrow> \<not> is_log e \<Longrightarrow> panic_end p [e, EvPanic p]"
  unfolding panic_end_def
  by (metis append_Cons append_Nil clean_Cons clean_Nil)

lemma panic_end_append: "clean xs \<Longrightarrow> panic_end p tr \<Longrightarrow> panic_end p (xs @ tr)"
  unfolding panic_end_def
  by (metis append_assoc clean_append)

lemma clean_no_panic: "clean tr \<Longrightarrow> EvPanic p \<notin> set tr"
  by (auto simp: clean_def is_panic_def)

lemma panic_end_unique: "panic_end p tr \<Longrightarrow> EvPanic q \<in> set tr \<Longrightarrow> q = p"
  using clean_no_panic by (auto simp: panic_end_def)

lemma upt_shift: "map f [i ..< i + Suc n] = f i # map f [Suc i ..< Suc i + n]"
proof -
  have "i < i + Suc n" by simp
  then have "[i ..< i + Suc n] = i # [Suc i ..< i + Suc n]" by (rule upt_conv_Cons)
  moreover have "i + Suc n = Suc i + n" by simp
  ultimately show ?thesis by (simp only: list.map)
qed

lemma run_statPres_trace:
  "run_statPres sps i ctx w = (r, c, w', tr) \<Longrightarrow>
     (case r of None \<Rightarrow> clean tr | Some p \<Rightarrow> panic_end p tr) \<and> filter is_stat_call tr = []"
proof (induction sps arbitrary: i ctx w r c w' tr)
  case Nil
  then show ?case by (simp add: clean_Nil)
next
  case (Cons s sps)
  obtain q c1 w1 where s: "Prepare s ctx w = (q, c1, w1)" by (cases "Prepare s ctx w") auto
  show ?case
  proof (cases q)
    case (Some p)
    with Cons.prems s show ?thesis
      by (auto simp: panic_end_single is_panic_def is_log_def is_stat_call_def)
  next
    case None
    obtain r0 c0 w0 tr0 where rec: "run_statPres sps (Suc i) c1 w1 = (r0, c0, w0, tr0)"
      by (cases "run_statPres sps (Suc i) c1 w1") auto
    from Cons.IH [OF rec] Cons.prems s None rec show ?thesis
      by (auto simp: clean_Cons panic_end_Cons is_panic_def is_log_def is_stat_call_def
          split: option.splits)
  qed
qed

lemma run_ruleChecks_trace:
  "run_ruleChecks rcs i ctx w = (r, c, w', tr) \<Longrightarrow>
     (case r of Inr x \<Rightarrow> clean tr | Inl p \<Rightarrow> panic_end p tr) \<and> filter is_stat_call tr = []"
proof (induction rcs arbitrary: i ctx w r c w' tr)
  case Nil
  then show ?case by (auto simp: clean_Nil)
next
  case (Cons s rcs)
  obtain q c1 w1 where s: "Check s ctx w = (q, c1, w1)" by (cases "Check s ctx w") auto
  show ?case
  proof (cases q)
    case (Inl p)
    with Cons.prems s show ?thesis
      by (auto simp: panic_end_single is_panic_def is_log_def is_stat_call_def)
  next
    case (Inr sr)
    show ?thesis
    proof (cases "case sr of None \<Rightarrow> False | Some r \<Rightarrow> IsBlocked r")
      case True
      with Cons.prems s Inr show ?thesis
        by (auto simp: clean_Cons clean_Nil is_panic_def is_log_def is_stat_call_def)
    next
      case False
      obtain r0 c0 w0 tr0 where rec: "run_ruleChecks rcs (Suc i) c1 w1 = (r0, c0, w0, tr0)"
        by (cases "run_ruleChecks rcs (Suc i) c1 w1") auto
      from Cons.IH [OF rec] Cons.prems s Inr False rec show ?thesis
        by (auto simp: clean_Cons panic_end_Cons is_panic_def is_log_def is_stat_call_def
            split: sum.splits)
    qed
  qed
qed

lemma run_ruleChecks_blocked:
  "run_ruleChecks rcs i ctx w = (Inr (Some sr), c, w', tr) \<Longrightarrow> IsBlocked sr"
proof (induction rcs arbitrary: i ctx w c w' tr)
  case Nil
  then show ?case by simp
next
  case (Cons s rcs)
  obtain q c1 w1 where s: "Check s ctx w = (q, c1, w1)" by (cases "Check s ctx w") auto
  obtain r0 c0 w0 tr0 where rec: "run_ruleChecks rcs (Suc i) c1 w1 = (r0, c0, w0, tr0)"
    by (cases "run_ruleChecks rcs (Suc i) c1 w1") auto
  from Cons.prems s rec Cons.IH [of "Suc i" c1 w1 c w' tr0] show ?case
    by (auto split: sum.splits if_splits option.splits)
qed

lemma run_stats_trace:
  "run_stats ss rr i ctx w = (r, c, w', tr) \<Longrightarrow>
     (case r of
        None \<Rightarrow> clean tr \<and> tr = map (stat_call rr) [i ..< i + length ss]
      | Some p \<Rightarrow> panic_end p tr)"
proof (induction ss arbitrary: i ctx w r c w' tr)
  case Nil
  then show ?case by (simp add: clean_Nil)
next
  case (Cons s ss)
  let ?call = "if \<not> IsBlocked rr then OnEntryPassed s ctx w
               else OnEntryBlocked s ctx (blockErr rr) w"
  obtain q c1 w1 where s: "?call = (q, c1, w1)" by (cases ?call) auto
  have e: "\<not> is_panic (stat_call rr i)" "\<not> is_log (stat_call rr i)"
    by (simp_all add: stat_call_def is_panic_def is_log_def)
  show ?case
  proof (cases q)
    case (Some p)
    with Cons.prems s have "r = Some p" and "tr = [stat_call rr i, EvPanic p]"
      by (auto simp: stat_call_def split: if_splits)
    then show ?thesis using e by (simp add: panic_end_single)
  next
    case None
    obtain r0 c0 w0 tr0 where rec: "run_stats ss rr (Suc i) c1 w1 = (r0, c0, w0, tr0)"
      by (cases "run_stats ss rr (Suc i) c1 w1") auto
    from Cons.prems s None rec have r: "r = r0" and tr: "tr = stat_call rr i # tr0"
      by (auto simp: stat_call_def split: if_splits)
    have len: "i + length (s # ss) = i + Suc (length ss)" by simp
    from Cons.IH [OF rec] show ?thesis
      unfolding r tr len upt_shift using e
      by (cases r0) (auto simp: clean_Cons panic_end_Cons simp del: upt_Suc)
  qed
qed

lemma run_completed_trace:
  "run_completed ss i ctx w = (r, c, w', tr) \<Longrightarrow>
     (case r of
        None \<Rightarrow> clean tr \<and> tr = map EvOnCompleted [i ..< i + length ss]
      | Some p \<Rightarrow> panic_end p tr)"
proof (induction ss arbitrary: i ctx w r c w' tr)
  case Nil
  then show ?case by (simp add: clean_Nil)
next
  case (Cons s ss)
  obtain q c1 w1 where s: "OnCompleted s ctx w = (q, c1, w1)" by (cases "OnCompleted s ctx w") auto
  have e: "\<not> is_panic (EvOnCompleted i)" "\<not> is_log (EvOnCompleted i)"
    by (simp_all add: is_panic_def is_log_def)
  show ?case
  proof (cases q)
    case (Some p)
    with Cons.prems s have "r = Some p" and "tr = [EvOnCompleted i, EvPanic p]"
      by auto
    then show ?thesis using e by (simp add: panic_end_single)
  next
    case None
    obtain r0 c0 w0 tr0 where rec: "run_completed ss (Suc i) c1 w1 = (r0, c0, w0, tr0)"
      by (cases "run_completed ss (Suc i) c1 w1") auto
    from Cons.prems s None rec have r: "r = r0" and tr: "tr = EvOnCompleted i # tr0"
      by auto
    have len: "i + length (s # ss) = i + Suc (length ss)" by simp
    from Cons.IH [OF rec] show ?thesis
      unfolding r tr len upt_shift using e
      by (cases r0) (auto simp: clean_Cons panic_end_Cons simp del: upt_Suc)
  qed
qed

lemma recovered_shape:
  assumes "panic_end q tr0" and "recovered q c w0 tr0 = (res, ctx', w', tr)"
    and "EvPanic p \<in> set tr"
  shows "res = None \<and> err ctx' = Some p \<and> (\<exists>pre. tr = pre @ [EvPanic p, EvLogError p] \<and> clean pre)"
proof -
  from assms(2) have res: "res = None" and c: "ctx' = SetError c q" and tr: "tr = tr0 @ [EvLogError q]"
    by (simp_all add: recovered_def)
  from assms(3) tr have "EvPanic p \<in> set tr0" by simp
  with assms(1) have qp: "q = p" using panic_end_unique by blast
  from assms(1) obtain pre where "tr0 = pre @ [EvPanic q]" and "clean pre"
    by (auto simp: panic_end_def)
  with tr qp have "tr = pre @ [EvPanic p, EvLogError p] \<and> clean pre" by simp
  with res c qp show ?thesis by (auto simp: SetError_def)
qed

lemma filter_stat_call_map: "filter is_stat_call (map (stat_call r) xs) = map (stat_call r) xs"
  by (induction xs) (auto simp: stat_call_def is_stat_call_def)

lemma Entry_cases:
  assumes "Entry sc ctx w = (res, ctx', w', tr)"
  shows "(\<exists>q c w0 tr0. panic_end q tr0 \<and> recovered q c w0 tr0 = (res, ctx', w', tr))
       \<or> (\<exists>r. res = Some r \<and> clean tr \<and>
             filter is_stat_call tr = map (stat_call r) [0 ..< length (stats sc)])"
proof -
  obtain r1 c1 w1 tr1 where p1: "run_statPres (statPres sc) 0 ctx w = (r1, c1, w1, tr1)"
    by (cases "run_statPres (statPres sc) 0 ctx w") auto
  note t1 = run_statPres_trace [OF p1]
  show ?thesis
  proof (cases r1)
    case (Some q)
    with assms p1 t1 show ?thesis by (auto simp: Entry_def)
  next
    case None
    obtain r2 c2 w2 tr2 where p2: "run_ruleChecks (ruleChecks sc) 0 c1 w1 = (r2, c2, w2, tr2)"
      by (cases "run_ruleChecks (ruleChecks sc) 0 c1 w1") auto
    note t2 = run_ruleChecks_trace [OF p2]
    show ?thesis
    proof (cases r2)
      case (Inl q)
      with t1 t2 None have "panic_end q (tr1 @ tr2)" by (simp add: panic_end_append)
      with assms p1 p2 None Inl show ?thesis by (auto simp: Entry_def)
    next
      case (Inr ret)
      define c3 where "c3 = (case ret of
                              None \<Rightarrow> c2\<lparr>RuleCheckResult := ResetToPass (RuleCheckResult c2)\<rparr>
                            | Some sr \<Rightarrow> c2\<lparr>RuleCheckResult := sr\<rparr>)"
      obtain r3 c4 w4 tr3 where
        p3: "run_stats (stats sc) (RuleCheckResult c3) 0 c3 w2 = (r3, c4, w4, tr3)"
        by (cases "run_stats (stats sc) (RuleCheckResult c3) 0 c3 w2") auto
      note t3 = run_stats_trace [OF p3]
      from assms p1 p2 None Inr p3 have E:
        "(res, ctx', w', tr) =
           (case r3 of Some p \<Rightarrow> recovered p c4 w4 (tr1 @ tr2 @ tr3)
            | None \<Rightarrow> (Some (RuleCheckResult c3), c4, w4, tr1 @ tr2 @ tr3))"
        by (cases r3) (simp_all add: Entry_def Let_def c3_def)
      show ?thesis
      proof (cases r3)
        case (Some q)
        with t1 t2 t3 None Inr have "panic_end q (tr1 @ tr2 @ tr3)"
          by (simp add: panic_end_append)
        with E Some show ?thesis by auto
      next
        case n3: None
        with t1 t2 t3 None Inr E show ?thesis
          by (auto simp: clean_append filter_stat_call_map)
      qed
    qed
  qed
qed

text \<open>
  C2, as amended. If a slot panics during \<^verbatim>\<open>SlotChain.Entry\<close>, the panic is recovered
  at the chain boundary, logged, and recorded on the context as its error, and
  \<^verbatim>\<open>Entry\<close> returns nil, which is no blocked result, so that the entry is treated as a
  pass. Nothing is called between the panic and the log line: every slot after the
  panicking one is skipped, a later statistic slot of the same chain included.
\<close>

theorem Entry_recovers_panic:
  assumes "Entry sc ctx w = (res, ctx', w', tr)" and "EvPanic p \<in> set tr"
  shows "res = None \<and> \<not> treated_as_blocked res \<and> err ctx' = Some p \<and>
         (\<exists>pre. tr = pre @ [EvPanic p, EvLogError p] \<and> clean pre)"
proof -
  from Entry_cases [OF assms(1)] show ?thesis
  proof
    assume "\<exists>q c w0 tr0. panic_end q tr0 \<and> recovered q c w0 tr0 = (res, ctx', w', tr)"
    then obtain q c w0 tr0 where "panic_end q tr0" and "recovered q c w0 tr0 = (res, ctx', w', tr)"
      by blast
    from recovered_shape [OF this assms(2)] show ?thesis
      by (simp add: treated_as_blocked_def)
  next
    assume "\<exists>r. res = Some r \<and> clean tr \<and>
             filter is_stat_call tr = map (stat_call r) [0 ..< length (stats sc)]"
    then have "clean tr" by blast
    then have "EvPanic p \<notin> set tr" by (rule clean_no_panic)
    with assms(2) show ?thesis by simp
  qed
qed

theorem Entry_recovers_panic_witness:
  "Entry panic_then_count fresh_ctx 0 =
     (None, SetError fresh_ctx ''boom'', 0,
      [EvCheck 0, EvOnEntryPassed 0, EvPanic ''boom'', EvLogError ''boom'']) \<and>
   EvPanic ''boom'' \<in> set [EvCheck 0, EvOnEntryPassed 0, EvPanic ''boom'', EvLogError ''boom''] \<and>
   \<not> treated_as_blocked None \<and>
   err (SetError fresh_ctx ''boom'') = Some ''boom''"
proof -
  have e: "Entry panic_then_count fresh_ctx 0 =
     (None, SetError fresh_ctx ''boom'', 0,
      [EvCheck 0, EvOnEntryPassed 0, EvPanic ''boom'', EvLogError ''boom''])"
    by code_simp
  have m: "EvPanic ''boom'' \<in> set [EvCheck 0, EvOnEntryPassed 0, EvPanic ''boom'', EvLogError ''boom'']"
    by simp
  from Entry_recovers_panic [OF e m] e m show ?thesis by simp
qed

theorem Entry_panic_skips_later_stat_counterexample:
  "Entry panic_then_count fresh_ctx 0 =
     (None, SetError fresh_ctx ''boom'', 0,
      [EvCheck 0, EvOnEntryPassed 0, EvPanic ''boom'', EvLogError ''boom'']) \<and>
   EvOnEntryPassed 1 \<notin> set [EvCheck 0, EvOnEntryPassed 0, EvPanic ''boom'', EvLogError ''boom'']"
  by code_simp

text \<open>
  C4, as amended. When \<^verbatim>\<open>SlotChain.Entry\<close> returns a result (no slot has panicked),
  every registered statistic slot has been invoked exactly once, in order:
  \<^verbatim>\<open>OnEntryBlocked\<close> when the returned rule-check result is blocked, \<^verbatim>\<open>OnEntryPassed\<close>
  otherwise. On exit of a context with an entry: a blocked context gets no call at
  all, and for a context that is not blocked, when \<^verbatim>\<open>exit\<close> returns without a panic,
  \<^verbatim>\<open>OnCompleted\<close> has been invoked on each statistic slot exactly once, in order.
\<close>

theorem stat_slots_each_invoked_once:
  "(Entry sc ctx w = (Some r, ctx', w', tr) \<longrightarrow>
      filter is_stat_call tr = map (stat_call r) [0 ..< length (stats sc)]) \<and>
   (entry c \<noteq> None \<longrightarrow> ctx_IsBlocked c \<longrightarrow> exit_chain sc (Some c) v = (None, Some c, v, [])) \<and>
   (entry c \<noteq> None \<longrightarrow> \<not> ctx_IsBlocked c \<longrightarrow> exit_chain sc (Some c) v = (None, c', v', tr') \<longrightarrow>
      tr' = map EvOnCompleted [0 ..< length (stats sc)])"
proof -
  have a: "Entry sc ctx w = (Some r, ctx', w', tr) \<longrightarrow>
      filter is_stat_call tr = map (stat_call r) [0 ..< length (stats sc)]"
  proof
    assume e: "Entry sc ctx w = (Some r, ctx', w', tr)"
    from Entry_cases [OF e] show "filter is_stat_call tr = map (stat_call r) [0 ..< length (stats sc)]"
      by (auto simp: recovered_def)
  qed
  have b: "entry c \<noteq> None \<longrightarrow> ctx_IsBlocked c \<longrightarrow> exit_chain sc (Some c) v = (None, Some c, v, [])"
    by (simp add: exit_chain_def)
  have d: "entry c \<noteq> None \<longrightarrow> \<not> ctx_IsBlocked c \<longrightarrow> exit_chain sc (Some c) v = (None, c', v', tr') \<longrightarrow>
      tr' = map EvOnCompleted [0 ..< length (stats sc)]"
  proof (intro impI)
    assume "entry c \<noteq> None" and "\<not> ctx_IsBlocked c"
      and x: "exit_chain sc (Some c) v = (None, c', v', tr')"
    then obtain c0 where "run_completed (stats sc) 0 c v = (None, c0, v', tr')"
      by (auto simp: exit_chain_def split: prod.splits)
    from run_completed_trace [OF this] show "tr' = map EvOnCompleted [0 ..< length (stats sc)]"
      by simp
  qed
  from a b d show ?thesis by blast
qed

theorem stat_slots_each_invoked_once_witness:
  "Entry blocked_count_twice fresh_ctx 0 =
     (Some (Blocked (BlockError ''flow'')), blocked_ctx, 2,
      [EvCheck 0, EvOnEntryBlocked 0, EvOnEntryBlocked 1]) \<and>
   filter is_stat_call [EvCheck 0, EvOnEntryBlocked 0, EvOnEntryBlocked 1]
     = [EvOnEntryBlocked 0, EvOnEntryBlocked 1] \<and>
   entry blocked_ctx \<noteq> None \<and> ctx_IsBlocked blocked_ctx \<and>
   exit_chain blocked_count_twice (Some blocked_ctx) 2 = (None, Some blocked_ctx, 2, []) \<and>
   entry fresh_ctx \<noteq> None \<and> \<not> ctx_IsBlocked fresh_ctx \<and>
   exit_chain blocked_count_twice (Some fresh_ctx) 1
     = (None, Some fresh_ctx, 3, [EvOnCompleted 0, EvOnCompleted 1])"
proof -
  have e: "Entry blocked_count_twice fresh_ctx 0 =
     (Some (Blocked (BlockError ''flow'')), blocked_ctx, 2,
      [EvCheck 0, EvOnEntryBlocked 0, EvOnEntryBlocked 1])"
    by code_simp
  have b: "entry blocked_ctx \<noteq> None" "ctx_IsBlocked blocked_ctx" by code_simp+
  have f: "entry fresh_ctx \<noteq> None" "\<not> ctx_IsBlocked fresh_ctx" by code_simp+
  have x: "exit_chain blocked_count_twice (Some fresh_ctx) 1
     = (None, Some fresh_ctx, 3, [EvOnCompleted 0, EvOnCompleted 1])"
    by code_simp
  have l: "length (stats blocked_count_twice) = 2" by code_simp
  have u: "[0 ..< (2::nat)] = [0, 1]" by code_simp
  have s: "stat_call (Blocked (BlockError ''flow'')) = EvOnEntryBlocked"
    by (rule ext) (simp add: stat_call_def IsBlocked_def)
  from stat_slots_each_invoked_once
         [where sc = blocked_count_twice and ctx = fresh_ctx and w = 0
            and r = "Blocked (BlockError ''flow'')" and ctx' = blocked_ctx and w' = 2
            and tr = "[EvCheck 0, EvOnEntryBlocked 0, EvOnEntryBlocked 1]"
            and c = blocked_ctx and v = 2]
       stat_slots_each_invoked_once
         [where sc = blocked_count_twice and c = fresh_ctx and v = 1 and c' = "Some fresh_ctx"
            and v' = 3 and tr' = "[EvOnCompleted 0, EvOnCompleted 1]"]
       e b f x l u s
  show ?thesis by simp
qed

theorem stat_slot_skipped_after_panic_counterexample:
  "Entry blocked_panic_then_count fresh_ctx 0 =
     (None, SetError blocked_ctx ''boom'', 0,
      [EvCheck 0, EvOnEntryBlocked 0, EvPanic ''boom'', EvLogError ''boom'']) \<and>
   length (stats blocked_panic_then_count) = 2 \<and>
   filter is_stat_call [EvCheck 0, EvOnEntryBlocked 0, EvPanic ''boom'', EvLogError ''boom'']
     = [EvOnEntryBlocked 0]"
  by code_simp

section \<open>The flow rule-check slot and the statistic slot\<close>

lemma check_loop_append:
  "check_loop (pre @ rest) ctx w =
     (case check_loop pre ctx w of
        (Some r, w') \<Rightarrow> (Some r, w')
      | (None, w') \<Rightarrow> check_loop rest ctx w')"
  by (induction pre ctx w rule: check_loop.induct) (auto split: prod.splits option.splits)

lemma flow_Check_cong:
  "check_loop tcs ctx w = check_loop tcs' ctx w' \<Longrightarrow> flow_Check tcs ctx w = flow_Check tcs' ctx w'"
  by (simp add: flow_Check_def)

text \<open>
  C3. In the flow rule-check slot the controllers are evaluated in the order of the
  list. Let the loop have passed the controllers \<open>pre\<close> without returning, and let the
  check of the next controller \<open>tc\<close> yield \<open>r\<close>. If \<open>r\<close> is blocked, \<^verbatim>\<open>Check\<close> returns it
  at once, whatever controllers follow, and the world is as that check left it. If
  \<open>r\<close> is a wait of a positive number of nanoseconds, the counter \<^verbatim>\<open>flow_wait_total\<close>
  of the resource grows by the batch count of the entry, \<^verbatim>\<open>Sleep\<close> is called with
  that number, and the loop goes on with the next controller; otherwise the loop goes
  on with the next controller and nothing else happens. The node of the check is
  the node of \<^verbatim>\<open>RefResource\<close> when the relation strategy of the rule is
  \<open>AssociatedResource\<close> and the node of the context otherwise, and a nil node yields
  a pass.
\<close>

theorem flow_Check_controllers_in_order:
  assumes "check_loop pre ctx w = (None, w1)"
    and "canPassCheck tc (StatNode ctx) (BatchCount (Input ctx)) w1 = (r, w2)"
  shows "(\<forall>b. r = Some (Blocked b) \<longrightarrow>
             flow_Check (pre @ Some tc # post) ctx w = (Blocked b, w2)) \<and>
         (\<forall>n. r = Some (ShouldWait n) \<longrightarrow> 0 < n \<longrightarrow>
             flow_Check (pre @ Some tc # post) ctx w = flow_Check post ctx (waited ctx n w2) \<and>
             flowWaitCount (waited ctx n w2) [Name (Resource ctx)]
               = flowWaitCount w2 [Name (Resource ctx)] + unat (BatchCount (Input ctx)) \<and>
             slept (waited ctx n w2) = slept w2 @ [n]) \<and>
         ((r = None \<or> r = Some Pass \<or> (\<exists>n. r = Some (ShouldWait n) \<and> n \<le> 0)) \<longrightarrow>
             flow_Check (pre @ Some tc # post) ctx w = flow_Check post ctx w2) \<and>
         (r, w2) =
           (case (if RelationStrategy (rule tc) = AssociatedResource
                  then GetResourceNode w1 (RefResource (rule tc)) else StatNode ctx) of
              None \<Rightarrow> (Some Pass, w1)
            | Some node \<Rightarrow> PerformChecking tc node (BatchCount (Input ctx)) 0 w1)"
proof -
  have step: "check_loop (pre @ Some tc # post) ctx w = check_loop (Some tc # post) ctx w1"
    using assms(1) by (simp add: check_loop_append)
  have a: "\<forall>b. r = Some (Blocked b) \<longrightarrow> flow_Check (pre @ Some tc # post) ctx w = (Blocked b, w2)"
    using assms(2) by (auto simp: flow_Check_def step)
  have b: "\<forall>n. r = Some (ShouldWait n) \<longrightarrow> 0 < n \<longrightarrow>
             flow_Check (pre @ Some tc # post) ctx w = flow_Check post ctx (waited ctx n w2) \<and>
             flowWaitCount (waited ctx n w2) [Name (Resource ctx)]
               = flowWaitCount w2 [Name (Resource ctx)] + unat (BatchCount (Input ctx)) \<and>
             slept (waited ctx n w2) = slept w2 @ [n]"
    using assms(2)
    by (auto simp: step waited_def Sleep_def counter_Add_def intro!: flow_Check_cong)
  have c: "(r = None \<or> r = Some Pass \<or> (\<exists>n. r = Some (ShouldWait n) \<and> n \<le> 0)) \<longrightarrow>
             flow_Check (pre @ Some tc # post) ctx w = flow_Check post ctx w2"
    using assms(2) by (auto simp: step intro!: flow_Check_cong)
  have sel: "canPassCheck tc (StatNode ctx) (BatchCount (Input ctx)) w1 =
           (case (if RelationStrategy (rule tc) = AssociatedResource
                  then GetResourceNode w1 (RefResource (rule tc)) else StatNode ctx) of
              None \<Rightarrow> (Some Pass, w1)
            | Some node \<Rightarrow> PerformChecking tc node (BatchCount (Input ctx)) 0 w1)"
    unfolding canPassCheck_def canPassCheckWithFlag_def checkInLocal_def
      selectNodeByRelStrategy_def NewTokenResultPass_def
    by (rule refl)
  have d: "(r, w2) =
           (case (if RelationStrategy (rule tc) = AssociatedResource
                  then GetResourceNode w1 (RefResource (rule tc)) else StatNode ctx) of
              None \<Rightarrow> (Some Pass, w1)
            | Some node \<Rightarrow> PerformChecking tc node (BatchCount (Input ctx)) 0 w1)"
    unfolding assms(2) [symmetric] by (rule sel)
  from a b c d show ?thesis by blast
qed

lemma check_loop_pre: "check_loop [Some pass_tc, None] fresh_ctx world0 = (None, world0)"
  by (simp add: pass_tc_def const_controller_def canPassCheck_def canPassCheckWithFlag_def
        checkInLocal_def selectNodeByRelStrategy_def fresh_ctx_def)

lemma canPassCheck_block:
  "canPassCheck block_tc (StatNode fresh_ctx) (BatchCount (Input fresh_ctx)) world0
     = (Some (Blocked (BlockError ''flow'')), world0)"
  by (simp add: block_tc_def const_controller_def canPassCheck_def canPassCheckWithFlag_def
        checkInLocal_def selectNodeByRelStrategy_def GetResourceNode_def world0_def)

lemma canPassCheck_wait:
  "canPassCheck wait_tc (StatNode fresh_ctx) (BatchCount (Input fresh_ctx)) world0
     = (Some (ShouldWait 5), world0)"
  by (simp add: wait_tc_def const_controller_def canPassCheck_def canPassCheckWithFlag_def
        checkInLocal_def selectNodeByRelStrategy_def fresh_ctx_def)

lemma canPassCheck_orphan:
  "canPassCheck orphan_tc (StatNode fresh_ctx) (BatchCount (Input fresh_ctx)) world0
     = (Some Pass, world0)"
  by (simp add: orphan_tc_def const_controller_def canPassCheck_def canPassCheckWithFlag_def
        checkInLocal_def selectNodeByRelStrategy_def GetResourceNode_def world0_def
        NewTokenResultPass_def)

theorem flow_Check_controllers_in_order_witness:
  "check_loop [Some pass_tc, None] fresh_ctx world0 = (None, world0) \<and>
   canPassCheck block_tc (StatNode fresh_ctx) (BatchCount (Input fresh_ctx)) world0
     = (Some (Blocked (BlockError ''flow'')), world0) \<and>
   flow_Check ([Some pass_tc, None] @ Some block_tc # [Some wait_tc]) fresh_ctx world0
     = (Blocked (BlockError ''flow''), world0) \<and>
   canPassCheck wait_tc (StatNode fresh_ctx) (BatchCount (Input fresh_ctx)) world0
     = (Some (ShouldWait 5), world0) \<and>
   flow_Check ([Some pass_tc, None] @ Some wait_tc # [Some block_tc]) fresh_ctx world0
     = flow_Check [Some block_tc] fresh_ctx (waited fresh_ctx 5 world0) \<and>
   flowWaitCount (waited fresh_ctx 5 world0) [''r''] = 3 \<and>
   slept (waited fresh_ctx 5 world0) = [5] \<and>
   canPassCheck orphan_tc (StatNode fresh_ctx) (BatchCount (Input fresh_ctx)) world0
     = (Some Pass, world0) \<and>
   flow_Check ([Some pass_tc, None] @ Some orphan_tc # [Some block_tc]) fresh_ctx world0
     = flow_Check [Some block_tc] fresh_ctx world0"
proof -
  have n: "Name (Resource fresh_ctx) = ''r''" "unat (BatchCount (Input fresh_ctx)) = 3"
    by (simp_all add: fresh_ctx_def)
  have z: "flowWaitCount world0 [''r''] = 0" "slept world0 = []"
    by (simp_all add: world0_def)
  from flow_Check_controllers_in_order [OF check_loop_pre canPassCheck_block, of "[Some wait_tc]"]
       flow_Check_controllers_in_order [OF check_loop_pre canPassCheck_wait, of "[Some block_tc]"]
       flow_Check_controllers_in_order [OF check_loop_pre canPassCheck_orphan, of "[Some block_tc]"]
       check_loop_pre canPassCheck_block canPassCheck_wait canPassCheck_orphan n z
  show ?thesis by simp
qed

lemma sint_sub_small:
  assumes "unat (s :: u64) \<le> unat now" and "unat now - unat s < 2 ^ 63"
  shows "sint (now - s) = int (unat now) - int (unat s)"
proof -
  have "unat (now - s) = unat now - unat s"
    using assms(1) by (simp add: unat_sub word_le_nat_alt)
  with assms(2) have "sint (now - s) = int (unat now - unat s)"
    using sint_small [of "now - s"] by simp
  with assms(1) show ?thesis by (simp only: of_nat_diff)
qed

text \<open>
  C5. The accounting of the statistic slot, for a context whose node \<open>a\<close> is not the
  inbound node itself. On pass the concurrency of the node grows by one and the batch
  count is added to \<open>pass\<close>, the other counters staying as they are; the same
  happens on the inbound node when the flow type of the resource is inbound, and
  nothing happens there otherwise. On block the batch count is added to \<open>block\<close> and
  the concurrency stays. On complete \<open>rt = now - startTime\<close> is put on the context, the
  batch count is added to \<open>complete\<close>, \<open>rt\<close> (as the \<^verbatim>\<open>int64\<close> it is converted to) is
  added to \<open>rt\<close>, the batch count is added to \<open>error\<close> exactly when the context has an
  error, and the concurrency falls by one.
\<close>

theorem stat_slot_accounting:
  assumes "StatNode ctx = Some a" and "a \<noteq> inboundNode w"
  shows "accounted_pass (uint (BatchCount (Input ctx)))
           (nodes w a) (nodes (stat_OnEntryPassed ctx w) a) \<and>
         (if FlowType (Resource ctx) = Inbound
          then accounted_pass (uint (BatchCount (Input ctx)))
                 (nodes w (inboundNode w)) (nodes (stat_OnEntryPassed ctx w) (inboundNode w))
          else nodes (stat_OnEntryPassed ctx w) (inboundNode w) = nodes w (inboundNode w)) \<and>
         accounted_block (uint (BatchCount (Input ctx)))
           (nodes w a) (nodes (stat_OnEntryBlocked ctx blockError w) a) \<and>
         (if FlowType (Resource ctx) = Inbound
          then accounted_block (uint (BatchCount (Input ctx)))
                 (nodes w (inboundNode w)) (nodes (stat_OnEntryBlocked ctx blockError w) (inboundNode w))
          else nodes (stat_OnEntryBlocked ctx blockError w) (inboundNode w) = nodes w (inboundNode w)) \<and>
         rt (fst (stat_OnCompleted now ctx w)) = now - startTime ctx \<and>
         accounted_complete (uint (BatchCount (Input ctx))) (sint (now - startTime ctx))
           (err ctx \<noteq> None) (nodes w a) (nodes (snd (stat_OnCompleted now ctx w)) a) \<and>
         (if FlowType (Resource ctx) = Inbound
          then accounted_complete (uint (BatchCount (Input ctx))) (sint (now - startTime ctx))
                 (err ctx \<noteq> None)
                 (nodes w (inboundNode w)) (nodes (snd (stat_OnCompleted now ctx w)) (inboundNode w))
          else nodes (snd (stat_OnCompleted now ctx w)) (inboundNode w) = nodes w (inboundNode w)) \<and>
         (unat (startTime ctx) \<le> unat now \<and> unat now - unat (startTime ctx) < 2 ^ 63 \<longrightarrow>
            sint (now - startTime ctx) = int (unat now) - int (unat (startTime ctx)))"
proof -
  have p: "accounted_pass (uint (BatchCount (Input ctx)))
           (nodes w a) (nodes (stat_OnEntryPassed ctx w) a)"
    using assms
    by (simp add: stat_OnEntryPassed_def recordPassFor_def Let_def accounted_pass_def
          AddCount_def IncreaseConcurrency_def)
  have pi: "if FlowType (Resource ctx) = Inbound
          then accounted_pass (uint (BatchCount (Input ctx)))
                 (nodes w (inboundNode w)) (nodes (stat_OnEntryPassed ctx w) (inboundNode w))
          else nodes (stat_OnEntryPassed ctx w) (inboundNode w) = nodes w (inboundNode w)"
    using assms
    by (simp add: stat_OnEntryPassed_def recordPassFor_def Let_def accounted_pass_def
          AddCount_def IncreaseConcurrency_def)
  have b: "accounted_block (uint (BatchCount (Input ctx)))
           (nodes w a) (nodes (stat_OnEntryBlocked ctx blockError w) a)"
    using assms
    by (simp add: stat_OnEntryBlocked_def recordBlockFor_def Let_def accounted_block_def
          AddCount_def)
  have bi: "if FlowType (Resource ctx) = Inbound
          then accounted_block (uint (BatchCount (Input ctx)))
                 (nodes w (inboundNode w)) (nodes (stat_OnEntryBlocked ctx blockError w) (inboundNode w))
          else nodes (stat_OnEntryBlocked ctx blockError w) (inboundNode w) = nodes w (inboundNode w)"
    using assms
    by (simp add: stat_OnEntryBlocked_def recordBlockFor_def Let_def accounted_block_def
          AddCount_def)
  have r: "rt (fst (stat_OnCompleted now ctx w)) = now - startTime ctx"
    by (simp add: stat_OnCompleted_def Let_def PutRt_def)
  have c: "accounted_complete (uint (BatchCount (Input ctx))) (sint (now - startTime ctx))
           (err ctx \<noteq> None) (nodes w a) (nodes (snd (stat_OnCompleted now ctx w)) a)"
    using assms
    by (simp add: stat_OnCompleted_def recordCompleteFor_def Let_def accounted_complete_def
          AddCount_def DecreaseConcurrency_def PutRt_def)
  have ci: "if FlowType (Resource ctx) = Inbound
          then accounted_complete (uint (BatchCount (Input ctx))) (sint (now - startTime ctx))
                 (err ctx \<noteq> None)
                 (nodes w (inboundNode w)) (nodes (snd (stat_OnCompleted now ctx w)) (inboundNode w))
          else nodes (snd (stat_OnCompleted now ctx w)) (inboundNode w) = nodes w (inboundNode w)"
    using assms
    by (simp add: stat_OnCompleted_def recordCompleteFor_def Let_def accounted_complete_def
          AddCount_def DecreaseConcurrency_def PutRt_def)
  have s: "unat (startTime ctx) \<le> unat now \<and> unat now - unat (startTime ctx) < 2 ^ 63 \<longrightarrow>
            sint (now - startTime ctx) = int (unat now) - int (unat (startTime ctx))"
    using sint_sub_small by blast
  from p pi b bi r c ci s show ?thesis by (simp only: simp_thms)
qed

lemma fresh_node: "StatNode fresh_ctx = Some 1"
  by (simp add: fresh_ctx_def)

lemma fresh_not_inbound: "1 \<noteq> inboundNode world0"
  by (simp add: world0_def)

theorem stat_slot_accounting_witness:
  "StatNode fresh_ctx = Some 1 \<and> 1 \<noteq> inboundNode world0 \<and>
   accounted_pass 3 (nodes world0 1) (nodes (stat_OnEntryPassed fresh_ctx world0) 1) \<and>
   accounted_pass 3 (nodes world0 0) (nodes (stat_OnEntryPassed fresh_ctx world0) 0) \<and>
   accounted_block 3 (nodes world0 1)
     (nodes (stat_OnEntryBlocked fresh_ctx (BlockError ''flow'') world0) 1) \<and>
   rt (fst (stat_OnCompleted 1250 fresh_ctx world0)) = 250 \<and>
   accounted_complete 3 250 False (nodes world0 1)
     (nodes (snd (stat_OnCompleted 1250 fresh_ctx world0)) 1) \<and>
   counters (nodes (snd (stat_OnCompleted 1250 fresh_ctx world0)) 1) MetricEventRt = 250 \<and>
   counters (nodes (stat_OnEntryPassed fresh_ctx world0) 1) MetricEventPass = 3 \<and>
   concurrency (nodes (stat_OnEntryPassed fresh_ctx world0) 1) = 1"
proof -
  have f: "FlowType (Resource fresh_ctx) = Inbound" "uint (BatchCount (Input fresh_ctx)) = 3"
    "startTime fresh_ctx = 1000" "err fresh_ctx = None" "inboundNode world0 = 0"
    by (simp_all add: fresh_ctx_def world0_def)
  have s: "sint (1250 - 1000 :: u64) = 250" by simp
  have z: "nodes world0 = (\<lambda>a. zero_node)"
    by (simp add: world0_def)
  from stat_slot_accounting [OF fresh_node fresh_not_inbound, of "BlockError ''flow''" 1250]
       fresh_node fresh_not_inbound
  show ?thesis
    unfolding f s by (simp add: z zero_node_def accounted_pass_def accounted_complete_def)
qed


section \<open>The metric aggregator: ticks, batches and the channel\<close>

lemma uint_eq_sint_nonneg:
  assumes "0 \<le> sint (w :: u64)"
  shows "uint w = sint w"
proof -
  have lt: "sint w < 2 ^ 63" using sint_lt [of w] by simp
  have "(2 :: int) ^ 63 < 2 ^ 64" by simp
  with lt have "sint w < 2 ^ 64" by (rule less_trans)
  with assms have "take_bit 64 (sint w) = sint w" by (rule take_bit_int_eq_self)
  with uint_sint [of w] show ?thesis by simp
qed

lemma sint_nonneg_unat:
  assumes "0 \<le> sint (w :: u64)"
  shows "sint w = int (unat w)" and "unat w < 2 ^ 63"
proof -
  have u: "uint w = sint w" using assms by (rule uint_eq_sint_nonneg)
  then show s: "sint w = int (unat w)" by (simp only: uint_nat)
  have "sint w < 2 ^ 63" using sint_lt [of w] by simp
  with s have "int (unat w) < int (2 ^ 63)" by simp
  then show "unat w < 2 ^ 63" by (simp only: of_nat_less_iff)
qed

lemma sint_below:
  assumes "0 \<le> sint (cur :: u64)" and "t < cur"
  shows "sint t < sint cur"
proof -
  note c = sint_nonneg_unat [OF assms(1)]
  have "unat t < unat cur" using assms(2) by (simp add: word_less_nat_alt)
  from this c(2) have "unat t < 2 ^ 63" by (rule less_trans)
  then have "sint t = int (unat t)" by (rule sint_small)
  with c(1) \<open>unat t < unat cur\<close> show ?thesis by linarith
qed

lemma set_update_subset: "set (AList.update k v al) \<subseteq> insert (k, v) (set al)"
  by (induction al) auto

lemma update_entries:
  assumes "\<forall>e \<in> set mm. P e" and "P (k, v)"
  shows "\<forall>e \<in> set (AList.update k v mm). P e"
  using assms set_update_subset [of k v mm] by blast

lemma active_not_all_zero: "isActiveMetricItem item \<longleftrightarrow> \<not> all_zero item"
  by (auto simp: isActiveMetricItem_def all_zero_def word_greater_zero_iff)

lemma fold_items_ok:
  assumes "\<forall>x \<in> set xs. isItemTimestampInTime lft (Timestamp x) cur"
    and "\<forall>(t, i) \<in> set m. item_ok lft cur t i"
  shows "\<forall>(t, i) \<in> set (fold (\<lambda>item m. if \<not> isActiveMetricItem item then m
                                      else AList.update (Timestamp item) item m) xs m).
           item_ok lft cur t i"
  using assms
proof (induction xs arbitrary: m)
  case Nil
  then show ?case by simp
next
  case (Cons x xs)
  let ?m' = "if \<not> isActiveMetricItem x then m else AList.update (Timestamp x) x m"
  have "\<forall>(t, i) \<in> set ?m'. item_ok lft cur t i"
  proof (cases "isActiveMetricItem x")
    case False
    with Cons.prems(2) show ?thesis by simp
  next
    case True
    have "item_ok lft cur (Timestamp x) x"
      using True Cons.prems(1) by (simp add: item_ok_def)
    with Cons.prems(2) set_update_subset [of "Timestamp x" x m] True show ?thesis
      by auto
  qed
  moreover have "\<forall>x \<in> set xs. isItemTimestampInTime lft (Timestamp x) cur"
    using Cons.prems(1) by simp
  ultimately show ?case using Cons.IH [of ?m'] by simp
qed

lemma currentMetricItems_ok:
  "\<forall>(t, i) \<in> set (currentMetricItems lft nd cur). item_ok lft cur t i"
  unfolding currentMetricItems_def Let_def
  by (rule fold_items_ok) (simp_all add: MetricsOnCondition_def)

lemma aggregateIntoMap_ok:
  assumes "\<forall>e \<in> set mm. entry_ok lft cur e"
    and "\<forall>(t, i) \<in> set metrics. item_ok lft cur t i"
  shows "\<forall>e \<in> set (aggregateIntoMap mm metrics node). entry_ok lft cur e"
  using assms unfolding aggregateIntoMap_def
proof (induction metrics arbitrary: mm)
  case Nil
  then show ?case by simp
next
  case (Cons x metrics)
  obtain t item where x: "x = (t, item)" by (cases x)
  let ?item' = "item\<lparr>ItemResource := ResourceName node, Classification := ResourceType node\<rparr>"
  let ?mm' = "case map_of mm t of
                Some items \<Rightarrow> AList.update t (items @ [?item']) mm
              | None \<Rightarrow> AList.update t [?item'] mm"
  have ok: "item_ok lft cur t ?item'"
    using Cons.prems(2) x by (simp add: item_ok_def isActiveMetricItem_def)
  have "\<forall>e \<in> set ?mm'. entry_ok lft cur e"
  proof (cases "map_of mm t")
    case None
    have "entry_ok lft cur (t, [?item'])" using ok by (simp add: entry_ok_def)
    with Cons.prems(1) have "\<forall>e \<in> set (AList.update t [?item'] mm). entry_ok lft cur e"
      by (rule update_entries)
    with None show ?thesis by simp
  next
    case (Some items)
    then have "(t, items) \<in> set mm" by (rule map_of_SomeD)
    with Cons.prems(1) have "entry_ok lft cur (t, items)" by blast
    with ok have "entry_ok lft cur (t, items @ [?item'])" by (simp add: entry_ok_def)
    with Cons.prems(1) have "\<forall>e \<in> set (AList.update t (items @ [?item']) mm). entry_ok lft cur e"
      by (rule update_entries)
    with Some show ?thesis by simp
  qed
  moreover have "\<forall>(t, i) \<in> set metrics. item_ok lft cur t i"
    using Cons.prems(2) by simp
  ultimately show ?case using Cons.IH [of ?mm'] by (simp add: x Let_def)
qed

lemma fold_nodes_ok:
  assumes "\<forall>e \<in> set mm. entry_ok lft cur e"
  shows "\<forall>e \<in> set (fold (\<lambda>node mm. aggregateIntoMap mm (currentMetricItems lft node cur) node)
                        cns mm). entry_ok lft cur e"
  using assms
proof (induction cns arbitrary: mm)
  case Nil
  then show ?case by simp
next
  case (Cons nd cns)
  have "\<forall>e \<in> set (aggregateIntoMap mm (currentMetricItems lft nd cur) nd). entry_ok lft cur e"
    using Cons.prems currentMetricItems_ok by (rule aggregateIntoMap_ok)
  then show ?case using Cons.IH by simp
qed

lemma build_maps_ok: "\<forall>e \<in> set (build_maps lft cns inbound cur). entry_ok lft cur e"
  unfolding build_maps_def Let_def
  by (rule aggregateIntoMap_ok [OF fold_nodes_ok currentMetricItems_ok]) simp

lemma doAggregate_skip:
  assumes "sint (now - now mod 1000) \<le> sint (lastFetchTime st)"
  shows "doAggregate now cns inbound st = Returned st"
  using assms by (simp add: doAggregate_def Let_def)

lemma doAggregate_run:
  assumes "sint (lastFetchTime st) < sint (now - now mod 1000)"
    and "build_maps (lastFetchTime st) cns inbound (now - now mod 1000) = maps"
  shows "doAggregate now cns inbound st =
           (if maps = [] then Returned (st\<lparr>lastFetchTime := now - now mod 1000\<rparr>)
            else if length (writeChan st) < logFlushQueueSize
              then Returned (st\<lparr>lastFetchTime := now - now mod 1000,
                                writeChan := writeChan st @ [maps]\<rparr>)
            else BlockedOnSend (st\<lparr>lastFetchTime := now - now mod 1000\<rparr>) maps)"
  using assms by (auto simp: doAggregate_def Let_def chan_send_def)

lemma doAggregate_handed_over:
  assumes "sint (lastFetchTime st) < sint (now - now mod 1000)"
    and "build_maps (lastFetchTime st) cns inbound (now - now mod 1000) = maps"
  shows "handed_over st (doAggregate now cns inbound st) = (if maps = [] then [] else [maps])"
    and "lastFetchTime (state_of (doAggregate now cns inbound st)) = now - now mod 1000"
  unfolding doAggregate_run [OF assms]
  by (simp_all add: handed_over_def state_of_def)

lemma published_Flush:
  "published (step Flush s) = published s \<and>
   lastFetchTime (agg (step Flush s)) = lastFetchTime (agg s)"
  by (cases "writeChan (agg s)"; cases "pending s") (simp_all add: published_def)

lemma published_Tick:
  assumes "pending s = None"
  shows "published (step (Tick now cns inbound) s)
           = published s @ handed_over (agg s) (doAggregate now cns inbound (agg s)) \<and>
         lastFetchTime (agg (step (Tick now cns inbound) s))
           = lastFetchTime (state_of (doAggregate now cns inbound (agg s)))"
proof (cases "sint (now - now mod 1000) \<le> sint (lastFetchTime (agg s))")
  case True
  then show ?thesis
    using assms
    by (simp add: doAggregate_skip published_def handed_over_def state_of_def)
next
  case False
  then have lt: "sint (lastFetchTime (agg s)) < sint (now - now mod 1000)" by simp
  show ?thesis
    using assms
    by (simp add: doAggregate_run [OF lt refl] published_def handed_over_def state_of_def)
qed

lemma sys_inv_step:
  assumes "sys_inv s"
  shows "sys_inv (step x s)"
proof (cases x)
  case Flush
  have "times_published T (step Flush s) = times_published T s" for T
    using published_Flush [of s] by (simp add: times_published_def)
  with assms published_Flush [of s] Flush show ?thesis
    by (simp add: sys_inv_def)
next
  case (Tick now cns inbound)
  show ?thesis
  proof (cases "pending s")
    case (Some m)
    with assms Tick show ?thesis by simp
  next
    case None
    let ?cur = "now - now mod 1000"
    let ?lft = "lastFetchTime (agg s)"
    let ?s' = "step (Tick now cns inbound) s"
    show ?thesis
    proof (cases "sint ?cur \<le> sint ?lft")
      case True
      then have "?s' = s"
        using None by (simp add: doAggregate_skip)
      with assms Tick show ?thesis by simp
    next
      case False
      then have lt: "sint ?lft < sint ?cur" by simp
      define maps where "maps = build_maps ?lft cns inbound ?cur"
      have bm: "build_maps ?lft cns inbound ?cur = maps" by (simp add: maps_def)
      note ho = doAggregate_handed_over [OF lt bm]
      have pub: "published ?s' = published s @ (if maps = [] then [] else [maps])"
        and lf: "lastFetchTime (agg ?s') = ?cur"
        using published_Tick [OF None, of now cns inbound] ho by simp_all
      from assms have i1: "- 1 \<le> sint ?lft"
        and i2: "\<forall>m \<in> set (published s). \<forall>t \<in> fst ` set m. sint t < sint ?lft"
        and i3: "\<forall>T. times_published T s \<le> 1"
        by (simp_all add: sys_inv_def)
      from i1 lt have nonneg: "0 \<le> sint ?cur" by linarith
      have keys: "sint ?lft \<le> sint t \<and> sint t < sint ?cur" if "t \<in> fst ` set maps" for t
      proof -
        from that obtain items where "(t, items) \<in> set maps" by auto
        with build_maps_ok [of ?lft cns inbound ?cur] have "entry_ok ?lft ?cur (t, items)"
          by (auto simp: maps_def)
        then obtain item where "item_ok ?lft ?cur t item"
          by (cases items) (auto simp: entry_ok_def)
        then have "sint ?lft \<le> sint t" and "t < ?cur"
          by (simp_all add: item_ok_def isItemTimestampInTime_def)
        with sint_below [OF nonneg] show ?thesis by simp
      qed
      have j1: "- 1 \<le> sint (lastFetchTime (agg ?s'))" using nonneg lf by simp
      have j2: "\<forall>m \<in> set (published ?s'). \<forall>t \<in> fst ` set m. sint t < sint (lastFetchTime (agg ?s'))"
      proof (intro ballI)
        fix m t assume m: "m \<in> set (published ?s')" and t: "t \<in> fst ` set m"
        from m pub have "m \<in> set (published s) \<or> m = maps" by (auto split: if_splits)
        then show "sint t < sint (lastFetchTime (agg ?s'))"
        proof
          assume "m \<in> set (published s)"
          with i2 t have "sint t < sint ?lft" by blast
          with lt lf show ?thesis by simp
        next
          assume "m = maps"
          with t keys lf show ?thesis by simp
        qed
      qed
      have j3: "times_published T ?s' \<le> 1" for T
      proof (cases "maps \<noteq> [] \<and> T \<in> fst ` set maps")
        case False
        then have "times_published T ?s' = times_published T s"
          using pub by (auto simp: times_published_def)
        with i3 show ?thesis by simp
      next
        case True
        then have "sint ?lft \<le> sint T" using keys by simp
        with i2 have "\<forall>m \<in> set (published s). T \<notin> fst ` set m" by fastforce
        then have "filter (\<lambda>m. T \<in> fst ` set m) (published s) = []"
          by (simp add: filter_empty_conv)
        then have "times_published T s = 0" by (simp add: times_published_def)
        with True pub show ?thesis by (simp add: times_published_def)
      qed
      from j1 j2 j3 Tick show ?thesis by (simp add: sys_inv_def)
    qed
  qed
qed

lemma sys_inv_run: "sys_inv s \<Longrightarrow> sys_inv (run steps s)"
  unfolding run_def
  by (induction steps arbitrary: s) (simp_all add: sys_inv_step)

lemma sys_inv_init: "sys_inv init_sys"
  by (simp add: sys_inv_def init_sys_def published_def times_published_def)

lemma build_batch_r: "build_maps (lastFetchTime full_state) [node_r] node_inbound (64500 - 64500 mod 1000) = batch_r"
  by code_simp

lemma build_batch_r': "build_maps (lastFetchTime state_before) [node_r] node_inbound (64500 - 64500 mod 1000) = batch_r"
  by code_simp

lemma batch_r_nonempty: "batch_r \<noteq> []"
  by (simp add: batch_r_def)

text \<open>
  C6. A tick computes \<open>curSecStart = now - now mod 1000\<close>. When \<open>curSecStart\<close> is at
  most \<open>lastFetchTime\<close> it returns and changes nothing. Otherwise \<open>lastFetchTime\<close> is
  \<open>curSecStart\<close> afterwards, and every item of a batch that it hands to the channel is
  filed under its own timestamp \<open>ts\<close>, which satisfies
  \<open>lastFetchTime \<le> ts < curSecStart\<close> (the first compared as \<^verbatim>\<open>int64\<close>, the second as
  \<^verbatim>\<open>uint64\<close>, as in the source), and is not all zero. In every run of ticks and
  flushes from the initial state, a timestamp \<open>T\<close> is a key of at most one of the
  batches handed to the channel.
\<close>

theorem aggregation_tick_at_most_once:
  "(sint (now - now mod 1000) \<le> sint (lastFetchTime st) \<longrightarrow>
      doAggregate now cns inbound st = Returned st) \<and>
   (sint (lastFetchTime st) < sint (now - now mod 1000) \<longrightarrow>
      lastFetchTime (state_of (doAggregate now cns inbound st)) = now - now mod 1000 \<and>
      (\<forall>m \<in> set (handed_over st (doAggregate now cns inbound st)).
         \<forall>(t, items) \<in> set m. \<forall>item \<in> set items.
            Timestamp item = t \<and> sint (lastFetchTime st) \<le> sint t \<and>
            t < now - now mod 1000 \<and> \<not> all_zero item)) \<and>
   times_published T (run steps init_sys) \<le> 1"
proof -
  let ?cur = "now - now mod 1000"
  have a: "sint ?cur \<le> sint (lastFetchTime st) \<longrightarrow> doAggregate now cns inbound st = Returned st"
    by (simp add: doAggregate_skip)
  have b: "sint (lastFetchTime st) < sint ?cur \<longrightarrow>
      lastFetchTime (state_of (doAggregate now cns inbound st)) = ?cur \<and>
      (\<forall>m \<in> set (handed_over st (doAggregate now cns inbound st)).
         \<forall>(t, items) \<in> set m. \<forall>item \<in> set items.
            Timestamp item = t \<and> sint (lastFetchTime st) \<le> sint t \<and>
            t < ?cur \<and> \<not> all_zero item)"
  proof
    assume lt: "sint (lastFetchTime st) < sint ?cur"
    note ho = doAggregate_handed_over [OF lt refl, of cns inbound]
    have "Timestamp item = t \<and> sint (lastFetchTime st) \<le> sint t \<and> t < ?cur \<and> \<not> all_zero item"
      if "(t, items) \<in> set (build_maps (lastFetchTime st) cns inbound ?cur)" and "item \<in> set items"
      for t items item
    proof -
      from that(1) build_maps_ok [of "lastFetchTime st" cns inbound ?cur]
      have "entry_ok (lastFetchTime st) ?cur (t, items)" by blast
      with that(2) have "item_ok (lastFetchTime st) ?cur t item" by (simp add: entry_ok_def)
      then show ?thesis
        by (simp add: item_ok_def isItemTimestampInTime_def active_not_all_zero)
    qed
    with ho show "lastFetchTime (state_of (doAggregate now cns inbound st)) = ?cur \<and>
      (\<forall>m \<in> set (handed_over st (doAggregate now cns inbound st)).
         \<forall>(t, items) \<in> set m. \<forall>item \<in> set items.
            Timestamp item = t \<and> sint (lastFetchTime st) \<le> sint t \<and>
            t < ?cur \<and> \<not> all_zero item)"
      by (auto split: if_splits)
  qed
  have c: "times_published T (run steps init_sys) \<le> 1"
    using sys_inv_run [OF sys_inv_init, of steps] by (simp add: sys_inv_def)
  from a b c show ?thesis by (simp only: simp_thms)
qed

theorem aggregation_tick_at_most_once_witness:
  "sint (64500 - 64500 mod 1000 :: u64) \<le> sint (lastFetchTime state_after) \<and>
   doAggregate 64500 [node_r] node_inbound state_after = Returned state_after \<and>
   sint (lastFetchTime state_before) < sint (64500 - 64500 mod 1000 :: u64) \<and>
   doAggregate 64500 [node_r] node_inbound state_before = Returned state_after \<and>
   lastFetchTime (state_of (doAggregate 64500 [node_r] node_inbound state_before)) = 64000 \<and>
   handed_over state_before (doAggregate 64500 [node_r] node_inbound state_before) = [batch_r] \<and>
   times_published 62000
     (run [Tick 64500 [node_r] node_inbound, Flush, Tick 65500 [node_r] node_inbound] init_sys) = 1"
proof -
  have a: "sint (64500 - 64500 mod 1000 :: u64) \<le> sint (lastFetchTime state_after)"
    by (simp add: state_after_def)
  have b: "sint (lastFetchTime state_before) < sint (64500 - 64500 mod 1000 :: u64)"
    by (simp add: state_before_def)
  have d: "doAggregate 64500 [node_r] node_inbound state_before = Returned state_after"
    by code_simp
  have h: "handed_over state_before (Returned state_after) = [batch_r]"
    by (simp add: handed_over_def state_before_def state_after_def)
  have t: "times_published 62000
     (run [Tick 64500 [node_r] node_inbound, Flush, Tick 65500 [node_r] node_inbound] init_sys) = 1"
    by code_simp
  from aggregation_tick_at_most_once
         [where now = 64500 and cns = "[node_r]" and inbound = node_inbound and st = state_after
            and T = 62000
            and steps = "[Tick 64500 [node_r] node_inbound, Flush, Tick 65500 [node_r] node_inbound]"]
       aggregation_tick_at_most_once
         [where now = 64500 and cns = "[node_r]" and inbound = node_inbound and st = state_before]
       a b d h t
  show ?thesis by simp
qed

text \<open>
  C7, as amended. When a tick has a batch that is not empty: if the channel holds
  fewer than 60 batches the batch is appended to it and \<^verbatim>\<open>doAggregate\<close> returns; if the
  channel is full, \<^verbatim>\<open>doAggregate\<close> stays in the send with \<open>lastFetchTime\<close> already set
  and the batch in its hands: nothing is dropped. While it waits a further tick does
  nothing, and as soon as the flush loop receives the oldest batch the send
  completes and the batch is the newest of the channel.
\<close>

theorem full_channel_blocks_send:
  assumes "sint (lastFetchTime st) < sint (now - now mod 1000)"
    and "build_maps (lastFetchTime st) cns inbound (now - now mod 1000) = maps"
    and "maps \<noteq> []"
  shows "(length (writeChan st) < logFlushQueueSize \<longrightarrow>
            doAggregate now cns inbound st =
              Returned (st\<lparr>lastFetchTime := now - now mod 1000,
                           writeChan := writeChan st @ [maps]\<rparr>)) \<and>
         (logFlushQueueSize \<le> length (writeChan st) \<longrightarrow>
            doAggregate now cns inbound st =
              BlockedOnSend (st\<lparr>lastFetchTime := now - now mod 1000\<rparr>) maps \<and>
            step (Tick now' cns' inbound')
              \<lparr>agg = st\<lparr>lastFetchTime := now - now mod 1000\<rparr>, pending = Some maps, received = rcv\<rparr>
              = \<lparr>agg = st\<lparr>lastFetchTime := now - now mod 1000\<rparr>, pending = Some maps, received = rcv\<rparr> \<and>
            step Flush
              \<lparr>agg = st\<lparr>lastFetchTime := now - now mod 1000\<rparr>, pending = Some maps, received = rcv\<rparr>
              = \<lparr>agg = st\<lparr>lastFetchTime := now - now mod 1000,
                           writeChan := tl (writeChan st) @ [maps]\<rparr>,
                 pending = None, received = rcv @ [hd (writeChan st)]\<rparr>)"
proof -
  note run = doAggregate_run [OF assms(1,2)]
  have a: "length (writeChan st) < logFlushQueueSize \<longrightarrow>
            doAggregate now cns inbound st =
              Returned (st\<lparr>lastFetchTime := now - now mod 1000,
                           writeChan := writeChan st @ [maps]\<rparr>)"
    using assms(3) by (simp add: run)
  have b: "logFlushQueueSize \<le> length (writeChan st) \<longrightarrow>
            doAggregate now cns inbound st =
              BlockedOnSend (st\<lparr>lastFetchTime := now - now mod 1000\<rparr>) maps \<and>
            step (Tick now' cns' inbound')
              \<lparr>agg = st\<lparr>lastFetchTime := now - now mod 1000\<rparr>, pending = Some maps, received = rcv\<rparr>
              = \<lparr>agg = st\<lparr>lastFetchTime := now - now mod 1000\<rparr>, pending = Some maps, received = rcv\<rparr> \<and>
            step Flush
              \<lparr>agg = st\<lparr>lastFetchTime := now - now mod 1000\<rparr>, pending = Some maps, received = rcv\<rparr>
              = \<lparr>agg = st\<lparr>lastFetchTime := now - now mod 1000,
                           writeChan := tl (writeChan st) @ [maps]\<rparr>,
                 pending = None, received = rcv @ [hd (writeChan st)]\<rparr>"
  proof
    assume full: "logFlushQueueSize \<le> length (writeChan st)"
    then have "writeChan st \<noteq> []" by (auto simp: logFlushQueueSize_def)
    then obtain m rest where c: "writeChan st = m # rest" by (cases "writeChan st") auto
    from full assms(3) show "doAggregate now cns inbound st =
              BlockedOnSend (st\<lparr>lastFetchTime := now - now mod 1000\<rparr>) maps \<and>
            step (Tick now' cns' inbound')
              \<lparr>agg = st\<lparr>lastFetchTime := now - now mod 1000\<rparr>, pending = Some maps, received = rcv\<rparr>
              = \<lparr>agg = st\<lparr>lastFetchTime := now - now mod 1000\<rparr>, pending = Some maps, received = rcv\<rparr> \<and>
            step Flush
              \<lparr>agg = st\<lparr>lastFetchTime := now - now mod 1000\<rparr>, pending = Some maps, received = rcv\<rparr>
              = \<lparr>agg = st\<lparr>lastFetchTime := now - now mod 1000,
                           writeChan := tl (writeChan st) @ [maps]\<rparr>,
                 pending = None, received = rcv @ [hd (writeChan st)]\<rparr>"
      by (simp add: run c)
  qed
  from a b show ?thesis by (simp only: simp_thms)
qed

theorem full_channel_blocks_send_witness:
  "sint (lastFetchTime full_state) < sint (64500 - 64500 mod 1000 :: u64) \<and>
   build_maps (lastFetchTime full_state) [node_r] node_inbound (64500 - 64500 mod 1000) = batch_r \<and>
   batch_r \<noteq> [] \<and>
   logFlushQueueSize \<le> length (writeChan full_state) \<and>
   doAggregate 64500 [node_r] node_inbound full_state
     = BlockedOnSend (full_state\<lparr>lastFetchTime := 64000\<rparr>) batch_r \<and>
   step Flush \<lparr>agg = full_state\<lparr>lastFetchTime := 64000\<rparr>, pending = Some batch_r, received = []\<rparr>
     = \<lparr>agg = full_state\<lparr>lastFetchTime := 64000, writeChan := tl (writeChan full_state) @ [batch_r]\<rparr>,
        pending = None, received = [hd (writeChan full_state)]\<rparr> \<and>
   length (writeChan state_before) < logFlushQueueSize \<and>
   doAggregate 64500 [node_r] node_inbound state_before
     = Returned (state_before\<lparr>lastFetchTime := 64000, writeChan := writeChan state_before @ [batch_r]\<rparr>)"
proof -
  have a: "sint (lastFetchTime full_state) < sint (64500 - 64500 mod 1000 :: u64)"
    by (simp add: full_state_def)
  have a': "sint (lastFetchTime state_before) < sint (64500 - 64500 mod 1000 :: u64)"
    by (simp add: state_before_def)
  have f: "logFlushQueueSize \<le> length (writeChan full_state)"
    by (simp add: full_state_def logFlushQueueSize_def)
  have e: "length (writeChan state_before) < logFlushQueueSize"
    by (simp add: state_before_def logFlushQueueSize_def)
  from full_channel_blocks_send [OF a build_batch_r batch_r_nonempty, of 0 "[]" node_inbound "[]"]
       full_channel_blocks_send [OF a' build_batch_r' batch_r_nonempty]
       a build_batch_r batch_r_nonempty f e
  show ?thesis by simp
qed

lemma full_state_reached:
  "run sixty_ticks init_sys = \<lparr>agg = full_state, pending = None, received = []\<rparr>"
  by code_simp

theorem full_channel_send_waits_counterexample:
  "run sixty_ticks init_sys = \<lparr>agg = full_state, pending = None, received = []\<rparr> \<and>
   length (writeChan full_state) = logFlushQueueSize \<and>
   build_maps (lastFetchTime full_state) [node_r] node_inbound 64000 = batch_r \<and>
   batch_r \<noteq> [] \<and>
   doAggregate 64500 [node_r] node_inbound full_state
     = BlockedOnSend (full_state\<lparr>lastFetchTime := 64000\<rparr>) batch_r \<and>
   doAggregate 64500 [node_r] node_inbound full_state
     \<noteq> Returned (full_state\<lparr>lastFetchTime := 64000\<rparr>)"
proof -
  have "doAggregate 64500 [node_r] node_inbound full_state
     = BlockedOnSend (full_state\<lparr>lastFetchTime := 64000\<rparr>) batch_r"
    by code_simp
  moreover have "length (writeChan full_state) = logFlushQueueSize"
    by (simp add: full_state_def logFlushQueueSize_def)
  moreover have "build_maps (lastFetchTime full_state) [node_r] node_inbound 64000 = batch_r"
    by code_simp
  ultimately show ?thesis by (simp add: batch_r_nonempty full_state_reached)
qed

end
